theory Spec2Isabelle
  imports Complex_Main "HOL-Library.Char_ord"
begin

section \<open>Python failures as values\<close>

text \<open>
  The notebook raises no exception of its own; every failure is one of Python's or
  PyTorch's: a missing dictionary key (\<open>KeyError\<close>), an embedding index outside the table
  (\<open>IndexError\<close>), a shape or reshape failure (\<open>RuntimeError\<close>), a ragged nested list given
  to \<open>torch.tensor\<close> (\<open>ValueError\<close>) and an integer modulo by zero (\<open>ZeroDivisionError\<close>).
\<close>

datatype error = KeyError | IndexError | RuntimeError | ValueError | ZeroDivisionError

section \<open>Vocabulary: the dictionaries \<open>stoi\<close> and \<open>itos\<close>\<close>

text \<open>
  \<^verbatim>\<open>
  chars = set(''.join(words))
  chars = sorted(list(chars))
  stoi = {char: idx for idx, char in enumerate(chars, start=1)}
  itos = {idx: char for idx, char in enumerate(chars, start=1)}
  stoi['.'] = 0
  itos[0] = '.'
  \<close>
  Characters are ordered by code point, as Python's \<open>sorted\<close> orders them; the names are
  ASCII, so a character is one byte.
\<close>

definition chars :: "string list \<Rightarrow> char list" where
  "chars words = sorted_list_of_set (set (concat words))"

fun enumerate_from :: "int \<Rightarrow> 'a list \<Rightarrow> (int \<times> 'a) list" where
  "enumerate_from n [] = []"
| "enumerate_from n (x # xs) = (n, x) # enumerate_from (n + 1) xs"

text \<open>A dictionary comprehension stores the pairs one after the other, each store
  overwriting what the key held before.\<close>

fun stoi_comprehension :: "(int \<times> char) list \<Rightarrow> (char \<rightharpoonup> int) \<Rightarrow> (char \<rightharpoonup> int)" where
  "stoi_comprehension [] d = d"
| "stoi_comprehension ((idx, ch) # rest) d = stoi_comprehension rest (d(ch \<mapsto> idx))"

fun itos_comprehension :: "(int \<times> char) list \<Rightarrow> (int \<rightharpoonup> char) \<Rightarrow> (int \<rightharpoonup> char)" where
  "itos_comprehension [] d = d"
| "itos_comprehension ((idx, ch) # rest) d = itos_comprehension rest (d(idx \<mapsto> ch))"

definition stoi :: "string list \<Rightarrow> (char \<rightharpoonup> int)" where
  "stoi words =
     (stoi_comprehension (enumerate_from 1 (chars words)) Map.empty)(CHR ''.'' \<mapsto> 0)"

definition itos :: "string list \<Rightarrow> (int \<rightharpoonup> char)" where
  "itos words =
     (itos_comprehension (enumerate_from 1 (chars words)) Map.empty)(0 \<mapsto> CHR ''.'')"

text \<open>The number of codes: the entries of \<open>itos\<close>, that is the characters and the
  boundary symbol.\<close>

definition vocabulary_size :: "string list \<Rightarrow> nat" where
  "vocabulary_size words = length (chars words) + 1"

text \<open>Subscripting a dictionary raises \<open>KeyError\<close> on a key it does not hold.\<close>

definition subscript :: "('k \<rightharpoonup> 'v) \<Rightarrow> 'k \<Rightarrow> error + 'v" where
  "subscript d k = (case d k of None \<Rightarrow> Inl KeyError | Some v \<Rightarrow> Inr v)"

section \<open>Example builder\<close>

text \<open>
  \<^verbatim>\<open>
  X, Y = [], []
  for word in words:
      ctx = [0] * ctx_len
      word = word + '.'
      for char in word:
          char_idx = stoi[char]
          X.append(ctx)
          Y.append(char_idx)
          ctx = ctx[1:] + [char_idx]
  \<close>
  The inner loop carries the context and the two lists; the outer loop the two lists.
\<close>

fun char_loop :: "(char \<rightharpoonup> int) \<Rightarrow> string \<Rightarrow> int list \<times> int list list \<times> int list
    \<Rightarrow> error + (int list \<times> int list list \<times> int list)" where
  "char_loop d [] (ctx, X, Y) = Inr (ctx, X, Y)"
| "char_loop d (ch # rest) (ctx, X, Y) =
     (case subscript d ch of
        Inl e \<Rightarrow> Inl e
      | Inr char_idx \<Rightarrow> char_loop d rest (drop 1 ctx @ [char_idx], X @ [ctx], Y @ [char_idx]))"

fun word_loop :: "(char \<rightharpoonup> int) \<Rightarrow> nat \<Rightarrow> string list \<Rightarrow> int list list \<times> int list
    \<Rightarrow> error + (int list list \<times> int list)" where
  "word_loop d ctx_len [] (X, Y) = Inr (X, Y)"
| "word_loop d ctx_len (word # rest) (X, Y) =
     (case char_loop d (word @ ''.'') (replicate ctx_len 0, X, Y) of
        Inl e \<Rightarrow> Inl e
      | Inr (ctx, X', Y') \<Rightarrow> word_loop d ctx_len rest (X', Y'))"

definition build_examples :: "nat \<Rightarrow> string list \<Rightarrow> error + (int list list \<times> int list)" where
  "build_examples ctx_len words = word_loop (stoi words) ctx_len words ([], [])"

section \<open>Language model: \<open>MLPLM\<close>\<close>

text \<open>
  Tensors are nested lists in row-major order. The notebook gives \<open>forward\<close> integer
  tensors of one or two dimensions; the embedding layer adds a dimension. A nested list
  without elements becomes a tensor of floating type, \<open>FloatTensor\<close>, which the embedding
  layer refuses as indices. Arithmetic is over the reals: rounding of the 32-bit floats is
  not modelled.
\<close>

type_synonym vec = "real list"
type_synonym matrix = "real list list"

datatype itensor = Tensor1 "int list" | Tensor2 "int list list" | FloatTensor

datatype rtensor = RTensor2 matrix | RTensor3 "matrix list"

text \<open>\<open>nn.Linear(in_features, out_features)\<close> holds a weight of \<open>out_features\<close> rows
  of \<open>in_features\<close> entries and a bias of \<open>out_features\<close> entries.\<close>

record linear_layer =
  in_features :: nat
  weight :: matrix
  bias :: vec

text \<open>
  \<^verbatim>\<open>
  class MLPLM(nn.Module):
      def __init__(self, vocab_size=27, emb_dim=2, ctx_len=3):
          self.embedding = nn.Embedding(vocab_size, emb_dim)
          self.fc = nn.Sequential(nn.Linear(emb_dim * ctx_len, 200), nn.ReLU(),
                                  nn.Linear(200, vocab_size))
  \<close>
\<close>

record MLPLM =
  embedding :: matrix
  fc_0 :: linear_layer
  fc_2 :: linear_layer

definition hidden :: nat where
  "hidden = 200"

definition linear_shape :: "nat \<Rightarrow> nat \<Rightarrow> linear_layer \<Rightarrow> bool" where
  "linear_shape n_in n_out l \<longleftrightarrow>
     in_features l = n_in \<and> length (weight l) = n_out
     \<and> list_all (\<lambda>row. length row = n_in) (weight l) \<and> length (bias l) = n_out"

text \<open>What \<open>__init__\<close> establishes: the shapes of the parameters. Their initial values
  are drawn at random and are left arbitrary.\<close>

definition MLPLM_init :: "nat \<Rightarrow> nat \<Rightarrow> nat \<Rightarrow> MLPLM \<Rightarrow> bool" where
  "MLPLM_init vocab_size emb_dim ctx_len m \<longleftrightarrow>
     length (embedding m) = vocab_size
     \<and> list_all (\<lambda>row. length row = emb_dim) (embedding m)
     \<and> linear_shape (emb_dim * ctx_len) hidden (fc_0 m)
     \<and> linear_shape hidden vocab_size (fc_2 m)"

text \<open>A map over a list that stops at the first failure.\<close>

fun traverse :: "('a \<Rightarrow> error + 'b) \<Rightarrow> 'a list \<Rightarrow> error + 'b list" where
  "traverse f [] = Inr []"
| "traverse f (x # xs) =
     (case f x of
        Inl e \<Rightarrow> Inl e
      | Inr y \<Rightarrow> (case traverse f xs of Inl e \<Rightarrow> Inl e | Inr ys \<Rightarrow> Inr (y # ys)))"

text \<open>\<open>nn.Embedding\<close> replaces every index by the row of the table it names; an index
  outside the table, negative ones included, raises \<open>IndexError\<close>, and indices of floating
  type raise \<open>RuntimeError\<close>.\<close>

definition embedding_lookup :: "matrix \<Rightarrow> int \<Rightarrow> error + vec" where
  "embedding_lookup table i =
     (if 0 \<le> i \<and> i < int (length table) then Inr (table ! nat i) else Inl IndexError)"

fun nn_embedding :: "matrix \<Rightarrow> itensor \<Rightarrow> error + rtensor" where
  "nn_embedding table (Tensor1 xs) =
     (case traverse (embedding_lookup table) xs of
        Inl e \<Rightarrow> Inl e | Inr rows \<Rightarrow> Inr (RTensor2 rows))"
| "nn_embedding table (Tensor2 xss) =
     (case traverse (traverse (embedding_lookup table)) xss of
        Inl e \<Rightarrow> Inl e | Inr blocks \<Rightarrow> Inr (RTensor3 blocks))"
| "nn_embedding table FloatTensor = Inl RuntimeError"

text \<open>\<open>x.view(x.size(0), -1)\<close> keeps the first dimension and flattens the others in
  row-major order; when the first dimension is 0 the size \<open>-1\<close> stands for is ambiguous
  and the call raises.\<close>

fun view_flat :: "rtensor \<Rightarrow> error + matrix" where
  "view_flat (RTensor2 rows) =
     (if rows = [] then Inl RuntimeError else Inr rows)"
| "view_flat (RTensor3 blocks) =
     (if blocks = [] then Inl RuntimeError else Inr (map concat blocks))"

definition dot :: "vec \<Rightarrow> vec \<Rightarrow> real" where
  "dot u v = sum_list (map2 (*) u v)"

text \<open>\<open>nn.Linear\<close> computes \<open>x W\<^sup>T + b\<close> on every row \<open>x\<close> of its input, and raises when
  the rows do not have \<open>in_features\<close> entries.\<close>

definition affine :: "matrix \<Rightarrow> vec \<Rightarrow> vec \<Rightarrow> vec" where
  "affine W b x = map2 (\<lambda>w bj. dot x w + bj) W b"

definition nn_linear :: "linear_layer \<Rightarrow> matrix \<Rightarrow> error + matrix" where
  "nn_linear l x =
     (if list_all (\<lambda>row. length row = in_features l) x
      then Inr (map (affine (weight l) (bias l)) x)
      else Inl RuntimeError)"

definition nn_relu :: "matrix \<Rightarrow> matrix" where
  "nn_relu x = map (map (\<lambda>v. max 0 v)) x"

text \<open>The \<open>nn.Sequential\<close> of the three layers.\<close>

definition fc :: "MLPLM \<Rightarrow> matrix \<Rightarrow> error + matrix" where
  "fc m x =
     (case nn_linear (fc_0 m) x of
        Inl e \<Rightarrow> Inl e
      | Inr h \<Rightarrow> nn_linear (fc_2 m) (nn_relu h))"

text \<open>
  \<^verbatim>\<open>
  def forward(self, x):
      x = self.embedding(x)
      x = x.view(x.size(0), -1)
      return self.fc(x)
  \<close>
\<close>

definition forward :: "MLPLM \<Rightarrow> itensor \<Rightarrow> error + matrix" where
  "forward m x =
     (case nn_embedding (embedding m) x of
        Inl e \<Rightarrow> Inl e
      | Inr emb \<Rightarrow>
          (case view_flat emb of
             Inl e \<Rightarrow> Inl e
           | Inr flat \<Rightarrow> fc m flat))"

text \<open>\<open>torch.tensor(ctx).unsqueeze(0)\<close>: a context as a batch of one.\<close>

definition unsqueeze_0 :: "int list \<Rightarrow> itensor" where
  "unsqueeze_0 ctx = Tensor2 [ctx]"

text \<open>\<open>torch.tensor(X)\<close> on the list of contexts. The shape is read from the first row. A
  list with no row, or whose first row is empty, has no element: nothing is stored or
  checked and the tensor is of floating type. Otherwise every row must have the length of
  the first and every entry must be a 64-bit integer, or the call raises.\<close>

definition int64 :: "int \<Rightarrow> bool" where
  "int64 c \<longleftrightarrow> - (2 ^ 63) \<le> c \<and> c < 2 ^ 63"

definition torch_tensor :: "int list list \<Rightarrow> error + itensor" where
  "torch_tensor rows =
     (case rows of
        [] \<Rightarrow> Inr FloatTensor
      | r # rs \<Rightarrow>
          if r = [] then Inr FloatTensor
          else if list_all (\<lambda>r'. length r' = length r) rs \<and> list_all (list_all int64) rows
          then Inr (Tensor2 rows)
          else Inl ValueError)"

section \<open>Training: \<open>fit\<close>\<close>

text \<open>
  \<^verbatim>\<open>
  def fit(model, X, Y, optimizer, loss_fn, epochs=200):
      history = {"train_loss": []}
      for epoch in range(epochs):
          logits = model(X)
          loss = loss_fn(logits, Y)
          optimizer.zero_grad()
          loss.backward()
          optimizer.step()
          train_loss = loss.item()
          history["train_loss"].append(train_loss)
          if epoch % (epochs // 10) == 0 or epoch == epochs - 1:
              print(f"Epoch {epoch} | Train loss: {train_loss:.4f}")
      return history
  \<close>
  The loss function, automatic differentiation and the optimizer belong to PyTorch and
  are parameters of the model: \<open>loss_fn\<close> is the loss of the logits against the targets,
  \<open>backward m X Y\<close> the gradient of that loss at the parameters \<open>m\<close>, which
  \<open>loss.backward()\<close> adds to the gradient buffers, and \<open>step\<close> the update the optimizer
  makes from the buffers and its own state. \<open>zero_grad\<close> resets the buffers. The field
  \<open>updates\<close> is not in the source: it records the gradient each call of \<open>step\<close> was
  given, so that properties of the updates can be stated.
\<close>

record ('g, 'o) train_state =
  model :: MLPLM
  grads :: 'g
  optimizer :: 'o
  train_loss :: "real list"
  printed :: "(int \<times> real) list"
  updates :: "'g list"

record ('g, 'o) torch_ops =
  loss_fn :: "matrix \<Rightarrow> int list \<Rightarrow> real"
  backward :: "MLPLM \<Rightarrow> itensor \<Rightarrow> int list \<Rightarrow> 'g"
  step :: "'o \<Rightarrow> MLPLM \<Rightarrow> 'g \<Rightarrow> MLPLM \<times> 'o"

definition epoch_body :: "('g::monoid_add, 'o) torch_ops \<Rightarrow> itensor \<Rightarrow> int list \<Rightarrow> int \<Rightarrow> int
    \<Rightarrow> ('g, 'o) train_state \<Rightarrow> error + ('g, 'o) train_state" where
  "epoch_body ops X Y epochs epoch s =
     (case forward (model s) X of
        Inl e \<Rightarrow> Inl e
      | Inr logits \<Rightarrow>
          (let loss = loss_fn ops logits Y;
               zeroed = (0 :: 'g);
               g = zeroed + backward ops (model s) X Y;
               (m', o') = step ops (optimizer s) (model s) g;
               s' = s\<lparr>model := m', grads := g, optimizer := o',
                      train_loss := train_loss s @ [loss], updates := updates s @ [g]\<rparr>
           in if epochs div 10 = 0 then Inl ZeroDivisionError
              else if epoch mod (epochs div 10) = 0 \<or> epoch = epochs - 1
              then Inr (s'\<lparr>printed := printed s' @ [(epoch, loss)]\<rparr>)
              else Inr s'))"

fun epoch_loop :: "('g::monoid_add, 'o) torch_ops \<Rightarrow> itensor \<Rightarrow> int list \<Rightarrow> int \<Rightarrow> int list
    \<Rightarrow> ('g, 'o) train_state \<Rightarrow> error + ('g, 'o) train_state" where
  "epoch_loop ops X Y epochs [] s = Inr s"
| "epoch_loop ops X Y epochs (epoch # rest) s =
     (case epoch_body ops X Y epochs epoch s of
        Inl e \<Rightarrow> Inl e
      | Inr s' \<Rightarrow> epoch_loop ops X Y epochs rest s')"

text \<open>\<open>range(epochs)\<close> is \<open>[0..epochs - 1]\<close>, empty when \<open>epochs\<close> is not positive. The
  state \<open>fit\<close> starts from holds the model and the optimizer it was given, whatever the
  gradient buffers hold, and an empty history.\<close>

definition fit :: "('g::monoid_add, 'o) torch_ops \<Rightarrow> MLPLM \<Rightarrow> 'g \<Rightarrow> 'o \<Rightarrow> itensor \<Rightarrow> int list \<Rightarrow> int
    \<Rightarrow> error + ('g, 'o) train_state" where
  "fit ops m g0 opt X Y epochs =
     epoch_loop ops X Y epochs [0..epochs - 1]
       \<lparr>model = m, grads = g0, optimizer = opt, train_loss = [], printed = [], updates = []\<rparr>"

section \<open>Generating names: the sampling loop\<close>

text \<open>
  \<^verbatim>\<open>
  ctx = [0, 0, 0]
  gen_name = ''
  while True:
      ctx_tensor = torch.tensor(ctx).unsqueeze(0)
      logits = model(ctx_tensor)
      probas = torch.softmax(logits, dim=1)
      idx = torch.multinomial(probas, 1)
      char = itos[idx.item()]
      gen_name += char
      ctx = ctx[1:] + [idx.item()]
      if char == '.':
          break
  \<close>
  Drawing from the softmax of the logits is PyTorch's and depends on the state of its
  random generator: \<open>sample logits g\<close> is the index drawn and the generator's next state.
  One pass of the loop body either goes on, leaves the loop with the name, or raises.
\<close>

datatype ('s, 'r) outcome = Continue 's | Break 'r | Raise error

definition loop_body :: "(int \<rightharpoonup> char) \<Rightarrow> MLPLM \<Rightarrow> (matrix \<Rightarrow> 'g \<Rightarrow> int \<times> 'g)
    \<Rightarrow> int list \<times> string \<times> 'g \<Rightarrow> (int list \<times> string \<times> 'g, string \<times> 'g) outcome" where
  "loop_body d m sample s =
     (case s of (ctx, gen_name, g) \<Rightarrow>
        (case forward m (unsqueeze_0 ctx) of
           Inl e \<Rightarrow> Raise e
         | Inr logits \<Rightarrow>
             (case sample logits g of (idx, g') \<Rightarrow>
                (case subscript d idx of
                   Inl e \<Rightarrow> Raise e
                 | Inr ch \<Rightarrow>
                     (let gen_name' = gen_name @ [ch];
                          ctx' = drop 1 ctx @ [idx]
                      in if ch = CHR ''.'' then Break (gen_name', g')
                         else Continue (ctx', gen_name', g'))))))"

text \<open>The loop has no other exit than the \<open>break\<close> and a raised error: a run that never
  reaches one of them has the value \<open>None\<close>.\<close>

partial_function (option) sampling_loop :: "(int \<rightharpoonup> char) \<Rightarrow> MLPLM \<Rightarrow> (matrix \<Rightarrow> 'g \<Rightarrow> int \<times> 'g)
    \<Rightarrow> int list \<times> string \<times> 'g \<Rightarrow> (error + string \<times> 'g) option" where
  "sampling_loop d m sample s =
     (case loop_body d m sample s of
        Continue s' \<Rightarrow> sampling_loop d m sample s'
      | Break r \<Rightarrow> Some (Inr r)
      | Raise e \<Rightarrow> Some (Inl e))"

definition generate :: "(int \<rightharpoonup> char) \<Rightarrow> MLPLM \<Rightarrow> (matrix \<Rightarrow> 'g \<Rightarrow> int \<times> 'g) \<Rightarrow> 'g
    \<Rightarrow> (error + string \<times> 'g) option" where
  "generate d m sample g = sampling_loop d m sample ([0, 0, 0], [], g)"

section \<open>Notions used to state the properties\<close>

text \<open>The contexts the inner loop of the example builder appends when it starts from
  \<open>ctx\<close> and meets the codes \<open>ts\<close>; the codes of a string under a dictionary that holds
  all its characters; and the position in \<open>X\<close> and \<open>Y\<close> where the examples of the
  \<open>k\<close>-th name start, each earlier name having taken one position for each of its
  characters and one more.\<close>

fun contexts_from :: "int list \<Rightarrow> int list \<Rightarrow> int list list" where
  "contexts_from ctx [] = []"
| "contexts_from ctx (t # ts) = ctx # contexts_from (drop 1 ctx @ [t]) ts"

definition codes :: "(char \<rightharpoonup> int) \<Rightarrow> string \<Rightarrow> int list" where
  "codes d w = map (\<lambda>c. the (d c)) w"

definition offset :: "string list \<Rightarrow> nat \<Rightarrow> nat" where
  "offset words k = sum_list (map (\<lambda>w. length w + 1) (take k words))"

text \<open>
  The forward pass in the words of the specification, for one context: look up each code
  in the embedding table, concatenate the vectors in the order of the context, apply the
  first linear transform and its bias (entry \<open>j\<close> of the result is the sum over \<open>k\<close> of
  \<open>W\<^sub>j\<^sub>k x\<^sub>k\<close>, plus \<open>b\<^sub>j\<close>), take \<open>max(0, x)\<close> of every entry, apply the second
  linear transform and its bias. Nothing is normalised.
\<close>

definition spec_linear :: "matrix \<Rightarrow> vec \<Rightarrow> vec \<Rightarrow> vec" where
  "spec_linear W b x =
     map (\<lambda>j. sum_list (map (\<lambda>k. W ! j ! k * x ! k) [0..<length x]) + b ! j) [0..<length b]"

definition spec_concat :: "MLPLM \<Rightarrow> int list \<Rightarrow> vec" where
  "spec_concat m ctx = concat (map (\<lambda>c. embedding m ! nat c) ctx)"

definition spec_hidden :: "MLPLM \<Rightarrow> int list \<Rightarrow> vec" where
  "spec_hidden m ctx = spec_linear (weight (fc_0 m)) (bias (fc_0 m)) (spec_concat m ctx)"

definition spec_logits :: "MLPLM \<Rightarrow> int list \<Rightarrow> vec" where
  "spec_logits m ctx =
     spec_linear (weight (fc_2 m)) (bias (fc_2 m)) (map (\<lambda>v. max 0 v) (spec_hidden m ctx))"

text \<open>A model of the shapes \<open>__init__\<close> gives, with parameters that are neither zero nor
  constant, for concrete runs.\<close>

definition example_model :: "nat \<Rightarrow> nat \<Rightarrow> nat \<Rightarrow> MLPLM" where
  "example_model V D C =
     \<lparr>embedding = map (\<lambda>i. replicate D (real i)) [0..<V],
      fc_0 = \<lparr>in_features = D * C,
              weight = map (\<lambda>j. replicate (D * C) (real j - 100)) [0..<hidden],
              bias = replicate hidden 1\<rparr>,
      fc_2 = \<lparr>in_features = hidden,
              weight = map (\<lambda>j. replicate hidden (real j)) [0..<V],
              bias = replicate V 0\<rparr>\<rparr>"

text \<open>A generator under which every draw gives the code \<open>k\<close>. The softmax of real logits
  gives every code a positive probability, so each code can be drawn at each step.\<close>

definition always :: "int \<Rightarrow> matrix \<Rightarrow> 'g \<Rightarrow> int \<times> 'g" where
  "always k logits g = (k, g)"


text \<open>One update of the parameters and the optimizer's state from the gradient of the
  loss on the whole of \<open>X\<close> and \<open>Y\<close>, and the parameters and state after \<open>n\<close> such
  updates.\<close>

definition update :: "('g::monoid_add, 'o) torch_ops \<Rightarrow> itensor \<Rightarrow> int list \<Rightarrow> MLPLM \<times> 'o \<Rightarrow> MLPLM \<times> 'o" where
  "update ops X Y mo = (case mo of (m, opt) \<Rightarrow> step ops opt m (backward ops m X Y))"

fun trained :: "('g::monoid_add, 'o) torch_ops \<Rightarrow> itensor \<Rightarrow> int list \<Rightarrow> nat \<Rightarrow> MLPLM \<times> 'o
    \<Rightarrow> MLPLM \<times> 'o" where
  "trained ops X Y 0 mo = mo"
| "trained ops X Y (Suc n) mo = trained ops X Y n (update ops X Y mo)"

section \<open>The vocabulary\<close>

lemma itos_comprehension_eq:
  "itos_comprehension (enumerate_from n cs) m k =
     (if n \<le> k \<and> k < n + int (length cs) then Some (cs ! nat (k - n)) else m k)"
proof (induction cs arbitrary: n m)
  case Nil
  then show ?case by auto
next
  case (Cons c cs)
  have IH: "itos_comprehension (enumerate_from (n + 1) cs) (m(n \<mapsto> c)) k =
      (if n + 1 \<le> k \<and> k < n + 1 + int (length cs) then Some (cs ! nat (k - (n + 1)))
       else (m(n \<mapsto> c)) k)"
    by (rule Cons.IH)
  have shift: "nat (k - n) - Suc 0 = nat (k - (n + 1))"
    by linarith
  show ?case
    unfolding enumerate_from.simps itos_comprehension.simps IH
    by (auto simp: shift)
qed

lemma stoi_comprehension_notin:
  "c \<notin> set cs \<Longrightarrow> stoi_comprehension (enumerate_from n cs) m c = m c"
  by (induction cs arbitrary: n m) auto

lemma stoi_comprehension_nth:
  "distinct cs \<Longrightarrow> i < length cs \<Longrightarrow>
   stoi_comprehension (enumerate_from n cs) m (cs ! i) = Some (n + int i)"
proof (induction cs arbitrary: n m i)
  case Nil
  then show ?case by simp
next
  case (Cons c cs)
  show ?case
  proof (cases i)
    case 0
    with Cons.prems show ?thesis by (simp add: stoi_comprehension_notin)
  next
    case (Suc j)
    with Cons.prems have "stoi_comprehension (enumerate_from (n + 1) cs) (m(c \<mapsto> n)) (cs ! j) = Some (n + 1 + int j)"
      by (intro Cons.IH) auto
    with Suc show ?thesis by simp
  qed
qed

lemma chars_distinct: "distinct (chars words)"
  by (simp add: chars_def)

lemma chars_sorted: "sorted (chars words)"
  by (simp add: chars_def)

lemma chars_set: "set (chars words) = set (concat words)"
  by (simp add: chars_def)

lemma itos_eq:
  "itos words k = (if k = 0 then Some (CHR ''.'')
     else if 1 \<le> k \<and> k \<le> int (length (chars words)) then Some (chars words ! nat (k - 1)) else None)"
  by (simp add: itos_def itos_comprehension_eq)

lemma stoi_boundary: "stoi words (CHR ''.'') = Some 0"
  by (simp add: stoi_def)

lemma stoi_nth:
  "i < length (chars words) \<Longrightarrow> chars words ! i \<noteq> CHR ''.'' \<Longrightarrow> stoi words (chars words ! i) = Some (int i + 1)"
  by (simp add: stoi_def stoi_comprehension_nth chars_distinct)

lemma stoi_notin: "c \<notin> set (concat words) \<Longrightarrow> c \<noteq> CHR ''.'' \<Longrightarrow> stoi words c = None"
  by (simp add: stoi_def stoi_comprehension_notin chars_set)

lemma stoi_range:
  "stoi words c = Some k \<Longrightarrow> 0 \<le> k \<and> k < int (vocabulary_size words)"
proof (cases "c = CHR ''.''")
  case True
  assume "stoi words c = Some k"
  with True show ?thesis by (simp add: stoi_boundary vocabulary_size_def)
next
  case False
  assume h: "stoi words c = Some k"
  show ?thesis
  proof (cases "c \<in> set (chars words)")
    case True
    then obtain i where i: "i < length (chars words)" "chars words ! i = c"
      by (auto simp: in_set_conv_nth)
    with False h stoi_nth[of i words] show ?thesis by (simp add: vocabulary_size_def)
  next
    case False
    with \<open>c \<noteq> CHR ''.''\<close> h show ?thesis by (simp add: stoi_notin chars_set)
  qed
qed

lemma stoi_in: "c \<in> set (concat words) \<Longrightarrow> \<exists>k. stoi words c = Some k"
proof (cases "c = CHR ''.''")
  case True
  then show ?thesis by (simp add: stoi_boundary)
next
  case False
  assume "c \<in> set (concat words)"
  then have "c \<in> set (chars words)" by (simp add: chars_set)
  then obtain i where i: "i < length (chars words)" "chars words ! i = c"
    by (auto simp: in_set_conv_nth)
  with False stoi_nth[of i words] show ?thesis by auto
qed

lemma chars_strict: "sorted_wrt (<) (chars words)"
  by (simp add: chars_def)

lemma chars_unique:
  assumes "distinct order" "set order = set (concat words)"
  shows "sort order = chars words"
proof -
  have "sorted (sort order)" "distinct (sort order)" "set (sort order) = set (chars words)"
    using assms by (simp_all add: chars_set)
  then show ?thesis
    using chars_sorted chars_distinct by (blast intro: sorted_distinct_set_unique)
qed

lemma itos_dom: "dom (itos words) = {0 ..< int (vocabulary_size words)}"
  by (auto simp: dom_def itos_eq vocabulary_size_def split: if_splits)

lemma stoi_ran:
  assumes "CHR ''.'' \<notin> set (concat words)"
  shows "ran (stoi words) = {0 ..< int (vocabulary_size words)}"
proof (intro set_eqI iffI)
  fix k assume "k \<in> ran (stoi words)"
  then obtain c where "stoi words c = Some k" by (auto simp: ran_def)
  from stoi_range[OF this] show "k \<in> {0 ..< int (vocabulary_size words)}" by simp
next
  fix k assume k: "k \<in> {0 ..< int (vocabulary_size words)}"
  show "k \<in> ran (stoi words)"
  proof (cases "k = 0")
    case True
    with stoi_boundary[of words] show ?thesis by (auto simp: ran_def)
  next
    case False
    with k have i: "nat (k - 1) < length (chars words)" by (auto simp: vocabulary_size_def)
    then have "chars words ! nat (k - 1) \<in> set (concat words)"
      using chars_set nth_mem by blast
    with assms have "chars words ! nat (k - 1) \<noteq> CHR ''.''" by auto
    from stoi_nth[OF i this] False k have "stoi words (chars words ! nat (k - 1)) = Some k"
      by simp
    then show ?thesis by (auto simp: ran_def)
  qed
qed

lemma roundtrip:
  assumes "c \<in> set (concat words)"
  shows "\<exists>k. stoi words c = Some k \<and> itos words k = Some c"
proof (cases "c = CHR ''.''")
  case True
  then show ?thesis by (simp add: stoi_boundary itos_eq)
next
  case False
  from assms have "c \<in> set (chars words)" by (simp add: chars_set)
  then obtain i where i: "i < length (chars words)" "chars words ! i = c"
    by (auto simp: in_set_conv_nth)
  with False stoi_nth[of i words] have "stoi words c = Some (int i + 1)" by simp
  moreover from i have "itos words (int i + 1) = Some c" by (simp add: itos_eq)
  ultimately show ?thesis by blast
qed

text \<open>
  Claim C5. A corpus is a list of names none of which contains the boundary symbol \<open>.\<close>,
  as the input format has it. For every such corpus, empty or not: the boundary symbol
  has code 0 in both dictionaries; the distinct characters of the corpus, in strictly
  increasing order, have the codes 1, 2, ... in both dictionaries, so that the codes are
  exactly the range from 0 to \<open>V - 1\<close>; the order in which the set of characters is listed
  before sorting does not matter; every character of the corpus is decoded from its code,
  and code 0 is decoded to the boundary symbol.
\<close>

theorem vocabulary_codes:
  assumes "CHR ''.'' \<notin> set (concat words)"
  shows "stoi words (CHR ''.'') = Some 0 \<and> itos words 0 = Some (CHR ''.'')
    \<and> sorted_wrt (<) (chars words) \<and> set (chars words) = set (concat words)
    \<and> vocabulary_size words = length (chars words) + 1
    \<and> (\<forall>i<length (chars words).
          stoi words (chars words ! i) = Some (int i + 1)
          \<and> itos words (int i + 1) = Some (chars words ! i))
    \<and> ran (stoi words) = {0 ..< int (vocabulary_size words)}
    \<and> dom (itos words) = {0 ..< int (vocabulary_size words)}
    \<and> (\<forall>order. distinct order \<and> set order = set (concat words) \<longrightarrow> sort order = chars words)
    \<and> (\<forall>c\<in>set (concat words). \<exists>k. subscript (stoi words) c = Inr k \<and> subscript (itos words) k = Inr c)
    \<and> subscript (itos words) 0 = Inr (CHR ''.'')"
proof -
  have codes: "\<forall>i<length (chars words).
          stoi words (chars words ! i) = Some (int i + 1)
          \<and> itos words (int i + 1) = Some (chars words ! i)"
  proof (intro allI impI)
    fix i assume i: "i < length (chars words)"
    then have "chars words ! i \<in> set (concat words)" using chars_set nth_mem by blast
    with assms have "chars words ! i \<noteq> CHR ''.''" by auto
    from stoi_nth[OF i this] i show "stoi words (chars words ! i) = Some (int i + 1)
          \<and> itos words (int i + 1) = Some (chars words ! i)" by (simp add: itos_eq)
  qed
  have rt: "\<forall>c\<in>set (concat words). \<exists>k. subscript (stoi words) c = Inr k \<and> subscript (itos words) k = Inr c"
  proof
    fix c assume "c \<in> set (concat words)"
    from roundtrip[OF this] show "\<exists>k. subscript (stoi words) c = Inr k \<and> subscript (itos words) k = Inr c"
      by (auto simp: subscript_def)
  qed
  have det: "\<forall>order. distinct order \<and> set order = set (concat words) \<longrightarrow> sort order = chars words"
    using chars_unique by blast
  have b: "subscript (itos words) 0 = Inr (CHR ''.'')"
    by (simp add: subscript_def itos_eq)
  have z: "itos words 0 = Some (CHR ''.'')"
    by (simp add: itos_eq)
  show ?thesis
    by (intro conjI stoi_boundary z chars_strict chars_set vocabulary_size_def codes
        stoi_ran[OF assms] itos_dom det rt b)
qed

theorem vocabulary_codes_witness:
  "CHR ''.'' \<notin> set (concat [''ab'', ''ba'', ''aab''])
   \<and> stoi [''ab'', ''ba'', ''aab''] (CHR ''.'') = Some 0
   \<and> itos [''ab'', ''ba'', ''aab''] 0 = Some (CHR ''.'')
   \<and> ran (stoi [''ab'', ''ba'', ''aab'']) = {0 ..< 3}"
proof -
  have h: "CHR ''.'' \<notin> set (concat [''ab'', ''ba'', ''aab''])" by simp
  have v: "vocabulary_size [''ab'', ''ba'', ''aab''] = 3" by code_simp
  note r = vocabulary_codes[OF h]
  from r have 1: "stoi [''ab'', ''ba'', ''aab''] (CHR ''.'') = Some 0" by (rule conjunct1)
  from r have 2: "itos [''ab'', ''ba'', ''aab''] 0 = Some (CHR ''.'')" by blast
  from r have "ran (stoi [''ab'', ''ba'', ''aab'']) = {0 ..< int (vocabulary_size [''ab'', ''ba'', ''aab''])}"
    by blast
  with v have 3: "ran (stoi [''ab'', ''ba'', ''aab'']) = {0 ..< 3}" by simp
  from h 1 2 3 show ?thesis by blast
qed

text \<open>
  Claim C8. For the vocabulary of any corpus, of size \<open>V\<close>, decoding the code \<open>V\<close> and
  decoding the code \<open>-1\<close> fail, and decoding fails exactly on the codes outside the range
  from 0 to \<open>V - 1\<close>. The failure is the \<open>KeyError\<close> of the dictionary \<open>itos\<close>.
\<close>

theorem decode_invalid_code:
  "subscript (itos words) (int (vocabulary_size words)) = Inl KeyError
   \<and> subscript (itos words) (- 1) = Inl KeyError
   \<and> (subscript (itos words) k = Inl KeyError \<longleftrightarrow> k < 0 \<or> int (vocabulary_size words) \<le> k)"
  by (auto simp: subscript_def itos_eq vocabulary_size_def split: if_splits)

theorem decode_invalid_code_witness:
  "subscript (itos [''ab'', ''ba'', ''aab'']) 3 = Inl KeyError
   \<and> subscript (itos [''ab'', ''ba'', ''aab'']) (- 1) = Inl KeyError
   \<and> subscript (itos [''ab'', ''ba'', ''aab'']) 2 \<noteq> Inl KeyError"
proof -
  have v: "vocabulary_size [''ab'', ''ba'', ''aab''] = 3" by code_simp
  from decode_invalid_code[of "[''ab'', ''ba'', ''aab'']" 2] v show ?thesis by simp
qed

section \<open>The example builder\<close>

lemma length_contexts_from [simp]: "length (contexts_from ctx ts) = length ts"
  by (induction ts arbitrary: ctx) auto

lemma contexts_from_first: "ts \<noteq> [] \<Longrightarrow> contexts_from ctx ts ! 0 = ctx"
  by (cases ts) auto

lemma contexts_from_slide:
  "Suc i < length ts \<Longrightarrow>
   contexts_from ctx ts ! Suc i = drop 1 (contexts_from ctx ts ! i) @ [ts ! i]"
proof (induction ts arbitrary: ctx i)
  case Nil
  then show ?case by simp
next
  case (Cons t ts)
  show ?case
  proof (cases i)
    case 0
    with Cons.prems show ?thesis by (cases ts) auto
  next
    case (Suc j)
    with Cons.prems have "Suc j < length ts" by simp
    from Cons.IH[OF this] Suc show ?thesis by simp
  qed
qed

lemma contexts_from_elems:
  "\<forall>c\<in>set ctx. P c \<Longrightarrow> \<forall>t\<in>set ts. P t \<Longrightarrow> \<forall>row\<in>set (contexts_from ctx ts). \<forall>c\<in>set row. P c"
proof (induction ts arbitrary: ctx)
  case Nil
  then show ?case by simp
next
  case (Cons t ts)
  have "\<forall>c\<in>set (drop 1 ctx @ [t]). P c"
    using Cons.prems by (auto dest: in_set_dropD)
  moreover have "\<forall>t\<in>set ts. P t" using Cons.prems by simp
  ultimately have "\<forall>row\<in>set (contexts_from (drop 1 ctx @ [t]) ts). \<forall>c\<in>set row. P c"
    by (rule Cons.IH)
  with Cons.prems show ?case by simp
qed

lemma contexts_from_length:
  "0 < length ctx \<Longrightarrow> \<forall>row\<in>set (contexts_from ctx ts). length row = length ctx"
proof (induction ts arbitrary: ctx)
  case Nil
  then show ?case by simp
next
  case (Cons t ts)
  let ?c = "drop 1 ctx @ [t]"
  from Cons.prems have l: "length ?c = length ctx" by simp
  with Cons.prems have "0 < length ?c" by (simp only:)
  then have "\<forall>row\<in>set (contexts_from ?c ts). length row = length ?c"
    by (rule Cons.IH)
  then have "\<forall>row\<in>set (contexts_from ?c ts). length row = length ctx"
    by (simp only: l)
  then show ?case by simp
qed

lemma char_loop_Inr:
  "\<forall>c\<in>set w. d c \<noteq> None \<Longrightarrow>
   \<exists>ctx'. char_loop d w (ctx, X, Y) =
     Inr (ctx', X @ contexts_from ctx (codes d w), Y @ codes d w)"
proof (induction w arbitrary: ctx X Y)
  case Nil
  then show ?case by (simp add: codes_def)
next
  case (Cons ch w)
  from Cons.prems obtain v where v: "d ch = Some v" by auto
  from Cons.prems have "\<forall>c\<in>set w. d c \<noteq> None" by simp
  from Cons.IH[OF this, of "drop 1 ctx @ [v]" "X @ [ctx]" "Y @ [v]"] v
  show ?case by (simp add: codes_def subscript_def)
qed

lemma word_loop_Inr:
  "\<forall>w\<in>set ws. \<forall>c\<in>set w. d c \<noteq> None \<Longrightarrow> d (CHR ''.'') \<noteq> None \<Longrightarrow>
   word_loop d n ws (X, Y) =
     Inr (X @ concat (map (\<lambda>w. contexts_from (replicate n 0) (codes d (w @ ''.''))) ws),
          Y @ concat (map (\<lambda>w. codes d (w @ ''.'')) ws))"
proof (induction ws arbitrary: X Y)
  case Nil
  then show ?case by simp
next
  case (Cons w ws)
  from Cons.prems have "\<forall>c\<in>set (w @ ''.''). d c \<noteq> None" by simp
  from char_loop_Inr[OF this, of "replicate n 0" X Y]
  obtain ctx' where c: "char_loop d (w @ ''.'') (replicate n 0, X, Y) =
     Inr (ctx', X @ contexts_from (replicate n 0) (codes d (w @ ''.'')), Y @ codes d (w @ ''.''))"
    by blast
  from Cons.prems have "\<forall>w\<in>set ws. \<forall>c\<in>set w. d c \<noteq> None" by simp
  from Cons.IH[OF this Cons.prems(2)] c show ?case by simp
qed

lemma nth_concat_offset:
  "k < length bs \<Longrightarrow> i < length (bs ! k) \<Longrightarrow>
   concat bs ! (sum_list (map length (take k bs)) + i) = bs ! k ! i"
proof (induction bs arbitrary: k)
  case Nil
  then show ?case by simp
next
  case (Cons b bs)
  show ?case
  proof (cases k)
    case 0
    with Cons.prems show ?thesis by (simp add: nth_append)
  next
    case (Suc j)
    with Cons.prems have "concat bs ! (sum_list (map length (take j bs)) + i) = bs ! j ! i"
      by (intro Cons.IH) auto
    with Suc show ?thesis by (simp add: nth_append add.assoc)
  qed
qed

lemma build_examples_eq:
  "build_examples n words =
     Inr (concat (map (\<lambda>w. contexts_from (replicate n 0) (codes (stoi words) (w @ ''.''))) words),
          concat (map (\<lambda>w. codes (stoi words) (w @ ''.'')) words))"
proof -
  have "\<forall>w\<in>set words. \<forall>c\<in>set w. stoi words c \<noteq> None"
  proof (intro ballI)
    fix w c assume "w \<in> set words" "c \<in> set w"
    then have "c \<in> set (concat words)" by auto
    from stoi_in[OF this] show "stoi words c \<noteq> None" by auto
  qed
  moreover have "stoi words (CHR ''.'') \<noteq> None" by (simp add: stoi_boundary)
  ultimately show ?thesis
    unfolding build_examples_def by (simp add: word_loop_Inr)
qed

lemma offset_blocks:
  assumes "\<forall>w. length (f w) = length w + 1"
  shows "sum_list (map length (take k (map f words))) = offset words k"
proof -
  have "map length (take k (map f words)) = map (\<lambda>w. length (f w)) (take k words)"
    by (simp add: take_map)
  also have "\<dots> = map (\<lambda>w. length w + 1) (take k words)"
    using assms by simp
  finally show ?thesis by (simp add: offset_def)
qed

lemma offset_Suc: "k < length words \<Longrightarrow> offset words (Suc k) = offset words k + length (words ! k) + 1"
  by (simp add: offset_def take_Suc_conv_app_nth)

lemma offset_length: "offset words (length words) = length (concat words) + length words"
  by (induction words) (auto simp: offset_def)

lemma codes_length [simp]: "length (codes d w) = length w"
  by (simp add: codes_def)

lemma codes_boundary_last:
  "codes (stoi words) (w @ ''.'') ! length w = 0"
  by (simp add: codes_def nth_append stoi_boundary)

lemma codes_nth:
  assumes "w \<in> set words" "i < length w"
  shows "stoi words (w ! i) = Some (codes (stoi words) (w @ ''.'') ! i)"
proof -
  from assms(2) have "w ! i \<in> set w" by simp
  with assms(1) have "w ! i \<in> set (concat words)" by auto
  from stoi_in[OF this] obtain k where "stoi words (w ! i) = Some k" by blast
  with assms show ?thesis by (simp add: codes_def nth_append)
qed

lemma codes_range:
  assumes "w \<in> set words"
  shows "\<forall>t\<in>set (codes (stoi words) (w @ ''.'')). 0 \<le> t \<and> t < int (vocabulary_size words)"
proof
  fix t assume "t \<in> set (codes (stoi words) (w @ ''.''))"
  then obtain c where c: "c \<in> set (w @ ''.'')" "t = the (stoi words c)"
    by (auto simp: codes_def)
  have "\<exists>k. stoi words c = Some k"
  proof (cases "c = CHR ''.''")
    case True
    then show ?thesis by (simp add: stoi_boundary)
  next
    case False
    with c assms have "c \<in> set (concat words)" by auto
    then show ?thesis by (rule stoi_in)
  qed
  then obtain k where k: "stoi words c = Some k" by blast
  from stoi_range[OF k] k c show "0 \<le> t \<and> t < int (vocabulary_size words)" by simp
qed

text \<open>The targets and the contexts of the \<open>k\<close>-th name, read from the whole lists.\<close>

lemma targets_block:
  assumes "build_examples n words = Inr (X, Y)" "k < length words" "i \<le> length (words ! k)"
  shows "Y ! (offset words k + i) = codes (stoi words) (words ! k @ ''.'') ! i"
proof -
  let ?f = "\<lambda>w. codes (stoi words) (w @ ''.'')"
  from assms(1) have Y: "Y = concat (map ?f words)" by (simp add: build_examples_eq)
  have "\<forall>w. length (?f w) = length w + 1" by simp
  then have o: "sum_list (map length (take k (map ?f words))) = offset words k"
    by (rule offset_blocks)
  have "concat (map ?f words) ! (sum_list (map length (take k (map ?f words))) + i)
      = map ?f words ! k ! i"
    using assms(2,3) by (intro nth_concat_offset) simp_all
  with o Y assms(2) show ?thesis by simp
qed

lemma contexts_block:
  assumes "build_examples n words = Inr (X, Y)" "k < length words" "i \<le> length (words ! k)"
  shows "X ! (offset words k + i)
     = contexts_from (replicate n 0) (codes (stoi words) (words ! k @ ''.'')) ! i"
proof -
  let ?f = "\<lambda>w. contexts_from (replicate n 0) (codes (stoi words) (w @ ''.''))"
  from assms(1) have X: "X = concat (map ?f words)" by (simp add: build_examples_eq)
  have "\<forall>w. length (?f w) = length w + 1" by simp
  then have o: "sum_list (map length (take k (map ?f words))) = offset words k"
    by (rule offset_blocks)
  have "concat (map ?f words) ! (sum_list (map length (take k (map ?f words))) + i)
      = map ?f words ! k ! i"
    using assms(2,3) by (intro nth_concat_offset) simp_all
  with o X assms(2) show ?thesis by simp
qed

lemma build_examples_lengths:
  assumes "build_examples n words = Inr (X, Y)"
  shows "length X = length (concat words) + length words"
    and "length Y = length (concat words) + length words"
proof -
  have s: "sum_list (map (\<lambda>w. Suc (length w)) words) = length (concat words) + length words"
    by (induction words) auto
  from assms have "X = concat (map (\<lambda>w. contexts_from (replicate n 0) (codes (stoi words) (w @ ''.''))) words)"
    and "Y = concat (map (\<lambda>w. codes (stoi words) (w @ ''.'')) words)"
    by (simp_all add: build_examples_eq)
  then show "length X = length (concat words) + length words"
    and "length Y = length (concat words) + length words"
    using s by (simp_all add: length_concat comp_def)
qed

lemma offset_le:
  "offset words k \<le> length (concat words) + length words"
proof -
  have "sum_list (map (\<lambda>w. length w + 1) (take k words @ drop k words))
      = offset words k + sum_list (map (\<lambda>w. length w + 1) (drop k words))"
    unfolding offset_def by (simp only: map_append sum_list_append)
  then have "offset words (length words)
      = offset words k + sum_list (map (\<lambda>w. length w + 1) (drop k words))"
    by (simp add: offset_def)
  then show ?thesis by (simp add: offset_length)
qed

text \<open>
  Claim C6. For every corpus and context length the example builder succeeds, and it
  produces as many contexts and as many targets as the corpus has characters plus names.
  The examples of the \<open>k\<close>-th name are consecutive: they start where those of the earlier
  names end and are one more than the name has characters; their targets are the codes
  of the characters of the name, in order, followed by the boundary code 0.
\<close>

theorem example_count:
  "\<exists>X Y. build_examples ctx_len words = Inr (X, Y)
     \<and> length X = length (concat words) + length words
     \<and> length Y = length (concat words) + length words
     \<and> (\<forall>k<length words.
           offset words (Suc k) = offset words k + (length (words ! k) + 1)
           \<and> offset words (Suc k) \<le> length Y
           \<and> (\<forall>i<length (words ! k).
                 stoi words (words ! k ! i) = Some (Y ! (offset words k + i)))
           \<and> Y ! (offset words k + length (words ! k)) = 0)"
proof -
  obtain X Y where b: "build_examples ctx_len words = Inr (X, Y)"
    by (simp add: build_examples_eq)
  have "offset words (Suc k) = offset words k + (length (words ! k) + 1)
           \<and> offset words (Suc k) \<le> length Y
           \<and> (\<forall>i<length (words ! k).
                 stoi words (words ! k ! i) = Some (Y ! (offset words k + i)))
           \<and> Y ! (offset words k + length (words ! k)) = 0" if k: "k < length words" for k
  proof (intro conjI allI impI)
    show "offset words (Suc k) = offset words k + (length (words ! k) + 1)"
      using k by (simp add: offset_Suc)
    show "offset words (Suc k) \<le> length Y"
      using build_examples_lengths(2)[OF b] offset_le[of words "Suc k"] by simp
    show "Y ! (offset words k + length (words ! k)) = 0"
      using targets_block[OF b k, of "length (words ! k)"] by (simp add: codes_boundary_last)
  next
    fix i assume i: "i < length (words ! k)"
    from k have "words ! k \<in> set words" by simp
    from codes_nth[OF this i] targets_block[OF b k, of i] i
    show "stoi words (words ! k ! i) = Some (Y ! (offset words k + i))" by simp
  qed
  with b build_examples_lengths[OF b] show ?thesis by blast
qed


theorem example_count_witness:
  "\<exists>X Y. build_examples 3 [''ab'', ''ba'', ''aab''] = Inr (X, Y)
     \<and> length X = 10 \<and> length Y = 10 \<and> Y ! 2 = 0 \<and> Y ! 5 = 0 \<and> Y ! 9 = 0"
proof -
  let ?W = "[''ab'', ''ba'', ''aab'']"
  from example_count[of 3 ?W] obtain X Y where
    b: "build_examples 3 ?W = Inr (X, Y)"
    and lx: "length X = length (concat ?W) + length ?W"
    and ly: "length Y = length (concat ?W) + length ?W"
    and blocks: "\<forall>k<length ?W. Y ! (offset ?W k + length (?W ! k)) = 0"
    by blast
  have o: "offset ?W 0 = 0" "offset ?W 1 = 3" "offset ?W 2 = 6"
    by (simp_all add: offset_def)
  have "Y ! 2 = 0"
    using blocks[rule_format, of 0] o by (simp add: eval_nat_numeral)
  moreover have "Y ! 5 = 0"
    using blocks[rule_format, of 1] o by (simp add: eval_nat_numeral)
  moreover have "Y ! 9 = 0"
    using blocks[rule_format, of 2] o by (simp add: eval_nat_numeral)
  ultimately show ?thesis
    using b lx ly by simp
qed

text \<open>
  Claim C7. Among the examples of one name, the first context is \<open>ctx_len\<close> copies of the
  boundary code 0, and each later context is the context before it without its first
  entry and with the target of the example before it appended.
\<close>

theorem context_sliding:
  assumes "build_examples ctx_len words = Inr (X, Y)" and "k < length words"
  shows "X ! offset words k = replicate ctx_len 0
     \<and> (\<forall>i<length (words ! k).
           X ! (offset words k + Suc i)
             = drop 1 (X ! (offset words k + i)) @ [Y ! (offset words k + i)])"
proof (intro conjI allI impI)
  let ?ts = "codes (stoi words) (words ! k @ ''.'')"
  have ne: "?ts \<noteq> []" by (simp add: codes_def)
  from contexts_block[OF assms, of 0] contexts_from_first[OF ne]
  show "X ! offset words k = replicate ctx_len 0" by simp
  fix i assume i: "i < length (words ! k)"
  then have "Suc i < length ?ts" by simp
  then have "contexts_from (replicate ctx_len 0) ?ts ! Suc i
      = drop 1 (contexts_from (replicate ctx_len 0) ?ts ! i) @ [?ts ! i]"
    by (rule contexts_from_slide)
  moreover from i have "X ! (offset words k + Suc i) = contexts_from (replicate ctx_len 0) ?ts ! Suc i"
    by (intro contexts_block[OF assms]) simp
  moreover from i have "X ! (offset words k + i) = contexts_from (replicate ctx_len 0) ?ts ! i"
    by (intro contexts_block[OF assms]) simp
  moreover from i have "Y ! (offset words k + i) = ?ts ! i"
    by (intro targets_block[OF assms]) simp
  ultimately show "X ! (offset words k + Suc i)
             = drop 1 (X ! (offset words k + i)) @ [Y ! (offset words k + i)]"
    by simp
qed

theorem context_sliding_witness:
  "build_examples 3 [''ab'', ''ba''] =
     Inr ([[0, 0, 0], [0, 0, 1], [0, 1, 2], [0, 0, 0], [0, 0, 2], [0, 2, 1]], [1, 2, 0, 2, 1, 0])
   \<and> (1::nat) < length [''ab'', ''ba'']
   \<and> [[0, 0, 0], [0, 0, 1], [0, 1, 2], [0, 0, 0], [0, 0, 2], [0, 2, 1 :: int]] ! offset [''ab'', ''ba''] 1
        = replicate 3 0
   \<and> [[0, 0, 0], [0, 0, 1], [0, 1, 2], [0, 0, 0], [0, 0, 2], [0, 2, 1 :: int]] ! (offset [''ab'', ''ba''] 1 + Suc 1)
        = drop 1 ([[0, 0, 0], [0, 0, 1], [0, 1, 2], [0, 0, 0], [0, 0, 2], [0, 2, 1]] ! (offset [''ab'', ''ba''] 1 + 1))
          @ [[1, 2, 0, 2, 1, 0] ! (offset [''ab'', ''ba''] 1 + 1)]"
proof -
  have b: "build_examples 3 [''ab'', ''ba''] =
     Inr ([[0, 0, 0], [0, 0, 1], [0, 1, 2], [0, 0, 0], [0, 0, 2], [0, 2, 1]], [1, 2, 0, 2, 1, 0])"
    by code_simp
  have k: "(1::nat) < length [''ab'', ''ba'']" by simp
  have i: "(1::nat) < length ([''ab'', ''ba''] ! 1)" by simp
  from context_sliding[OF b k] i b k show ?thesis by blast
qed

section \<open>The forward pass\<close>

lemma example_model_init: "MLPLM_init V D C (example_model V D C)"
  by (simp add: MLPLM_init_def linear_shape_def example_model_def list_all_iff)

lemma traverse_Inr:
  "\<forall>x\<in>set xs. f x = Inr (g x) \<Longrightarrow> traverse f xs = Inr (map g xs)"
  by (induction xs) auto

lemma embedding_lookup_valid:
  "0 \<le> c \<Longrightarrow> c < int (length table) \<Longrightarrow> embedding_lookup table c = Inr (table ! nat c)"
  by (simp add: embedding_lookup_def)

lemma embedding_row:
  "\<forall>c\<in>set ctx. 0 \<le> c \<and> c < int (length table) \<Longrightarrow>
   traverse (embedding_lookup table) ctx = Inr (map (\<lambda>c. table ! nat c) ctx)"
  by (intro traverse_Inr) (simp add: embedding_lookup_valid)

lemma embedding_batch:
  "\<forall>ctx\<in>set X. \<forall>c\<in>set ctx. 0 \<le> c \<and> c < int (length table) \<Longrightarrow>
   nn_embedding table (Tensor2 X) = Inr (RTensor3 (map (map (\<lambda>c. table ! nat c)) X))"
proof -
  assume "\<forall>ctx\<in>set X. \<forall>c\<in>set ctx. 0 \<le> c \<and> c < int (length table)"
  then have "\<forall>ctx\<in>set X. traverse (embedding_lookup table) ctx = Inr (map (\<lambda>c. table ! nat c) ctx)"
    by (simp add: embedding_row)
  then have "traverse (traverse (embedding_lookup table)) X = Inr (map (map (\<lambda>c. table ! nat c)) X)"
    by (rule traverse_Inr)
  then show ?thesis by simp
qed

lemma forward_IndexError:
  "forward m x = Inl IndexError \<Longrightarrow> nn_embedding (embedding m) x = Inl IndexError"
  by (auto simp: forward_def fc_def nn_linear_def split: sum.splits if_splits rtensor.splits
      elim!: view_flat.elims)

lemma length_concat_const:
  "\<forall>v\<in>set vs. length v = d \<Longrightarrow> length (concat vs) = length vs * d"
  by (induction vs) auto

lemma concat_slice:
  "\<forall>v\<in>set vs. length v = d \<Longrightarrow> i < length vs \<Longrightarrow> take d (drop (i * d) (concat vs)) = vs ! i"
proof (induction vs arbitrary: i)
  case Nil
  then show ?case by simp
next
  case (Cons v vs)
  show ?case
  proof (cases i)
    case 0
    with Cons.prems show ?thesis by simp
  next
    case (Suc j)
    with Cons.prems have "take d (drop (j * d) (concat vs)) = vs ! j"
      by (intro Cons.IH) auto
    moreover from Cons.prems have "length v = d" by simp
    ultimately show ?thesis using Suc by (simp add: drop_append add.commute)
  qed
qed

lemma dot_sum:
  "length u = length v \<Longrightarrow> dot u v = sum_list (map (\<lambda>k. v ! k * u ! k) [0..<length u])"
proof -
  assume l: "length u = length v"
  have "map2 (*) u v = map (\<lambda>k. v ! k * u ! k) [0..<length u]"
    using l by (intro nth_equalityI) (simp_all add: mult.commute)
  then show ?thesis by (simp add: dot_def)
qed

lemma affine_spec:
  assumes "length W = length b" "\<forall>w\<in>set W. length w = length x"
  shows "affine W b x = spec_linear W b x"
proof (intro nth_equalityI)
  show "length (affine W b x) = length (spec_linear W b x)"
    using assms by (simp add: affine_def spec_linear_def)
  fix j assume "j < length (affine W b x)"
  with assms have j: "j < length W" "j < length b" by (simp_all add: affine_def)
  with assms have "length x = length (W ! j)" by simp
  from dot_sum[OF this] j show "affine W b x ! j = spec_linear W b x ! j"
    by (simp add: affine_def spec_linear_def)
qed

lemma spec_concat_length:
  assumes "MLPLM_init V D C m" "length ctx = C" "\<forall>c\<in>set ctx. 0 \<le> c \<and> c < int V"
  shows "length (spec_concat m ctx) = C * D"
proof -
  from assms(1) have E: "length (embedding m) = V" "\<forall>row\<in>set (embedding m). length row = D"
    by (simp_all add: MLPLM_init_def list_all_iff)
  have "\<forall>v\<in>set (map (\<lambda>c. embedding m ! nat c) ctx). length v = D"
  proof
    fix v assume "v \<in> set (map (\<lambda>c. embedding m ! nat c) ctx)"
    then obtain c where c: "c \<in> set ctx" "v = embedding m ! nat c" by auto
    with assms(3) E(1) have "nat c < length (embedding m)" by auto
    with E(2) c show "length v = D" by simp
  qed
  from length_concat_const[OF this] assms(2) show ?thesis by (simp add: spec_concat_def)
qed

lemma spec_concat_slice:
  assumes "MLPLM_init V D C m" "length ctx = C" "\<forall>c\<in>set ctx. 0 \<le> c \<and> c < int V" "i < C"
  shows "take D (drop (i * D) (spec_concat m ctx)) = embedding m ! nat (ctx ! i)"
proof -
  from assms(1) have E: "length (embedding m) = V" "\<forall>row\<in>set (embedding m). length row = D"
    by (simp_all add: MLPLM_init_def list_all_iff)
  have "\<forall>v\<in>set (map (\<lambda>c. embedding m ! nat c) ctx). length v = D"
  proof
    fix v assume "v \<in> set (map (\<lambda>c. embedding m ! nat c) ctx)"
    then obtain c where c: "c \<in> set ctx" "v = embedding m ! nat c" by auto
    with assms(3) E(1) have "nat c < length (embedding m)" by auto
    with E(2) c show "length v = D" by simp
  qed
  from concat_slice[OF this, of i] assms(2,4) show ?thesis by (simp add: spec_concat_def)
qed

lemma spec_hidden_eq:
  assumes "MLPLM_init V D C m" "length ctx = C" "\<forall>c\<in>set ctx. 0 \<le> c \<and> c < int V"
  shows "affine (weight (fc_0 m)) (bias (fc_0 m)) (spec_concat m ctx) = spec_hidden m ctx"
    and "length (spec_hidden m ctx) = hidden"
proof -
  from assms(1) have s: "length (weight (fc_0 m)) = hidden" "length (bias (fc_0 m)) = hidden"
    "\<forall>w\<in>set (weight (fc_0 m)). length w = D * C"
    by (simp_all add: MLPLM_init_def linear_shape_def list_all_iff)
  from spec_concat_length[OF assms] s(3)
  have "\<forall>w\<in>set (weight (fc_0 m)). length w = length (spec_concat m ctx)"
    by (simp add: mult.commute)
  with s show "affine (weight (fc_0 m)) (bias (fc_0 m)) (spec_concat m ctx) = spec_hidden m ctx"
    unfolding spec_hidden_def by (intro affine_spec) simp_all
  from s show "length (spec_hidden m ctx) = hidden"
    by (simp add: spec_hidden_def spec_linear_def)
qed

lemma spec_logits_eq:
  assumes "MLPLM_init V D C m" "length ctx = C" "\<forall>c\<in>set ctx. 0 \<le> c \<and> c < int V"
  shows "affine (weight (fc_2 m)) (bias (fc_2 m)) (map (\<lambda>v. max 0 v) (spec_hidden m ctx))
      = spec_logits m ctx"
    and "length (spec_logits m ctx) = V"
proof -
  from assms(1) have s: "length (weight (fc_2 m)) = V" "length (bias (fc_2 m)) = V"
    "\<forall>w\<in>set (weight (fc_2 m)). length w = hidden"
    by (simp_all add: MLPLM_init_def linear_shape_def list_all_iff)
  from spec_hidden_eq(2)[OF assms] s(3)
  have "\<forall>w\<in>set (weight (fc_2 m)). length w = length (map (\<lambda>v. max 0 v) (spec_hidden m ctx))"
    by simp
  with s show "affine (weight (fc_2 m)) (bias (fc_2 m)) (map (\<lambda>v. max 0 v) (spec_hidden m ctx))
      = spec_logits m ctx"
    unfolding spec_logits_def by (intro affine_spec) simp_all
  from s show "length (spec_logits m ctx) = V"
    by (simp add: spec_logits_def spec_linear_def)
qed

lemma fc_rows:
  assumes "MLPLM_init V D C m"
    and "\<forall>ctx\<in>set X. length ctx = C \<and> (\<forall>c\<in>set ctx. 0 \<le> c \<and> c < int V)"
  shows "fc m (map (spec_concat m) X) = Inr (map (spec_logits m) X)"
proof -
  from assms(1) have f: "in_features (fc_0 m) = D * C" "in_features (fc_2 m) = hidden"
    by (simp_all add: MLPLM_init_def linear_shape_def)
  have "\<forall>ctx\<in>set X. length (spec_concat m ctx) = in_features (fc_0 m)"
    using assms(2) spec_concat_length[OF assms(1)] f by (simp add: mult.commute)
  then have 1: "nn_linear (fc_0 m) (map (spec_concat m) X)
      = Inr (map (affine (weight (fc_0 m)) (bias (fc_0 m))) (map (spec_concat m) X))"
    by (simp add: nn_linear_def list_all_iff)
  have 2: "map (affine (weight (fc_0 m)) (bias (fc_0 m))) (map (spec_concat m) X)
      = map (spec_hidden m) X"
    using assms(2) spec_hidden_eq(1)[OF assms(1)] by simp
  have 3: "nn_relu (map (spec_hidden m) X) = map (\<lambda>ctx. map (\<lambda>v. max 0 v) (spec_hidden m ctx)) X"
    by (simp add: nn_relu_def)
  have "\<forall>ctx\<in>set X. length (map (\<lambda>v. max 0 v) (spec_hidden m ctx)) = in_features (fc_2 m)"
    using assms(2) spec_hidden_eq(2)[OF assms(1)] f by simp
  then have 4: "nn_linear (fc_2 m) (map (\<lambda>ctx. map (\<lambda>v. max 0 v) (spec_hidden m ctx)) X)
      = Inr (map (affine (weight (fc_2 m)) (bias (fc_2 m)))
               (map (\<lambda>ctx. map (\<lambda>v. max 0 v) (spec_hidden m ctx)) X))"
    by (simp add: nn_linear_def list_all_iff)
  have "\<forall>ctx\<in>set X. affine (weight (fc_2 m)) (bias (fc_2 m))
        (map (\<lambda>v. max 0 v) (spec_hidden m ctx)) = spec_logits m ctx"
  proof
    fix ctx assume "ctx \<in> set X"
    with assms(2) have "length ctx = C" "\<forall>c\<in>set ctx. 0 \<le> c \<and> c < int V" by auto
    then show "affine (weight (fc_2 m)) (bias (fc_2 m))
        (map (\<lambda>v. max 0 v) (spec_hidden m ctx)) = spec_logits m ctx"
      by (rule spec_logits_eq(1)[OF assms(1)])
  qed
  then have "map (\<lambda>ctx. affine (weight (fc_2 m)) (bias (fc_2 m))
        (map (\<lambda>v. max 0 v) (spec_hidden m ctx))) X = map (spec_logits m) X"
    by (intro map_cong[OF refl]) blast
  then have 5: "map (affine (weight (fc_2 m)) (bias (fc_2 m)))
               (map (\<lambda>ctx. map (\<lambda>v. max 0 v) (spec_hidden m ctx)) X) = map (spec_logits m) X"
    by (simp only: map_map comp_def)
  show ?thesis
    unfolding fc_def 1 2 by (simp only: sum.case 3 4 5)
qed

lemma forward_batch_eq:
  assumes "MLPLM_init V D C m" "0 < C" "0 < D" "X \<noteq> []"
    and "\<forall>ctx\<in>set X. length ctx = C \<and> (\<forall>c\<in>set ctx. 0 \<le> c \<and> c < int V)"
  shows "forward m (Tensor2 X) = Inr (map (spec_logits m) X)"
proof -
  from assms(1) have E: "length (embedding m) = V"
    by (simp add: MLPLM_init_def)
  with assms(5) have "\<forall>ctx\<in>set X. \<forall>c\<in>set ctx. 0 \<le> c \<and> c < int (length (embedding m))"
    by simp
  then have 1: "nn_embedding (embedding m) (Tensor2 X)
      = Inr (RTensor3 (map (map (\<lambda>c. embedding m ! nat c)) X))"
    by (rule embedding_batch)
  have flat: "map concat (map (map (\<lambda>c. embedding m ! nat c)) X) = map (spec_concat m) X"
    by (simp add: spec_concat_def)
  from assms(4) have "map (map (\<lambda>c. embedding m ! nat c)) X \<noteq> []" by simp
  then have 2: "view_flat (RTensor3 (map (map (\<lambda>c. embedding m ! nat c)) X))
      = Inr (map (spec_concat m) X)"
    using flat by simp
  show ?thesis
    unfolding forward_def 1 by (simp only: sum.case 2 fc_rows[OF assms(1,5)])
qed

text \<open>
  Claim C3, as the code has it. \<open>forward\<close> takes a batch: for a model of vocabulary size
  \<open>V\<close>, embedding dimension \<open>D\<close> and context length \<open>C\<close>, both positive, and a batch of \<open>N > 0\<close>
  contexts of \<open>C\<close> codes in the range from 0 to \<open>V - 1\<close>, it returns the \<open>N\<close> rows of logits
  the specification describes, one per context and in the order of the batch, each of
  \<open>V\<close> entries and with nothing normalised. One context is given as a batch of one, as the
  sampling loop does, and comes back as a matrix of one row. The concatenated vector has
  \<open>C * D\<close> entries, entries \<open>i * D\<close> to \<open>i * D + D - 1\<close> being the embedding of the \<open>i\<close>-th code of
  the context, and the hidden layer has 200 entries.
\<close>

theorem forward_logits:
  assumes "MLPLM_init V D C m" "0 < C" "0 < D" "X \<noteq> []"
    and "\<forall>ctx\<in>set X. length ctx = C \<and> (\<forall>c\<in>set ctx. 0 \<le> c \<and> c < int V)"
  shows "forward m (Tensor2 X) = Inr (map (spec_logits m) X)
     \<and> (\<forall>ctx\<in>set X.
           forward m (unsqueeze_0 ctx) = Inr [spec_logits m ctx]
           \<and> length (spec_logits m ctx) = V
           \<and> length (spec_hidden m ctx) = hidden
           \<and> length (spec_concat m ctx) = C * D
           \<and> (\<forall>i<C. take D (drop (i * D) (spec_concat m ctx)) = embedding m ! nat (ctx ! i)))"
proof (intro conjI ballI allI impI)
  show "forward m (Tensor2 X) = Inr (map (spec_logits m) X)"
    using assms by (rule forward_batch_eq)
next
  fix ctx assume "ctx \<in> set X"
  with assms(5) have c: "length ctx = C" "\<forall>c\<in>set ctx. 0 \<le> c \<and> c < int V" by auto
  then have one: "\<forall>x\<in>set [ctx]. length x = C \<and> (\<forall>c\<in>set x. 0 \<le> c \<and> c < int V)" by simp
  have "[ctx] \<noteq> []" by simp
  from forward_batch_eq[OF assms(1-3) this one]
  have "forward m (Tensor2 [ctx]) = Inr (map (spec_logits m) [ctx])" .
  then show "forward m (unsqueeze_0 ctx) = Inr [spec_logits m ctx]"
    by (simp add: unsqueeze_0_def)
  show "length (spec_logits m ctx) = V"
    using assms(1) c by (rule spec_logits_eq(2))
  show "length (spec_hidden m ctx) = hidden"
    using assms(1) c by (rule spec_hidden_eq(2))
  show "length (spec_concat m ctx) = C * D"
    using assms(1) c by (rule spec_concat_length)
  fix i assume "i < C"
  with assms(1) c show "take D (drop (i * D) (spec_concat m ctx)) = embedding m ! nat (ctx ! i)"
    by (rule spec_concat_slice)
qed

theorem forward_logits_witness:
  "MLPLM_init 27 2 3 (example_model 27 2 3)
   \<and> forward (example_model 27 2 3) (Tensor2 [[0, 1, 2], [5, 0, 26]])
       = Inr [spec_logits (example_model 27 2 3) [0, 1, 2], spec_logits (example_model 27 2 3) [5, 0, 26]]
   \<and> forward (example_model 27 2 3) (unsqueeze_0 [0, 1, 2])
       = Inr [spec_logits (example_model 27 2 3) [0, 1, 2]]
   \<and> length (spec_logits (example_model 27 2 3) [0, 1, 2]) = 27"
proof -
  have i: "MLPLM_init 27 2 3 (example_model 27 2 3)" by (rule example_model_init)
  have x: "\<forall>ctx\<in>set [[0, 1, 2], [5, 0, 26 :: int]].
      length ctx = 3 \<and> (\<forall>c\<in>set ctx. 0 \<le> c \<and> c < int 27)" by simp
  have "(0::nat) < 3" "(0::nat) < 2" "[[0, 1, 2], [5, 0, 26 :: int]] \<noteq> []" by simp_all
  from forward_logits[OF i this x] i show ?thesis by simp
qed

text \<open>A context that is not wrapped in a batch is refused: the embedding gives a matrix of
  \<open>C\<close> rows of \<open>D\<close> entries, \<open>view\<close> leaves it so, and the first linear layer expects rows of
  \<open>C * D\<close> entries.\<close>

theorem forward_unbatched_counterexample:
  "MLPLM_init 27 2 3 (example_model 27 2 3)
   \<and> forward (example_model 27 2 3) (Tensor1 [0, 0, 0]) = Inl RuntimeError"
proof -
  have "forward (example_model 27 2 3) (Tensor1 [0, 0, 0]) = Inl RuntimeError"
    by (simp add: forward_def example_model_def embedding_lookup_def fc_def nn_linear_def)
  with example_model_init[of 27 2 3] show ?thesis by simp
qed

lemma build_examples_range:
  assumes "build_examples n words = Inr (X, Y)"
  shows "\<forall>ctx\<in>set X. \<forall>c\<in>set ctx. 0 \<le> c \<and> c < int (vocabulary_size words)"
    and "\<forall>t\<in>set Y. 0 \<le> t \<and> t < int (vocabulary_size words)"
proof -
  let ?P = "\<lambda>c. 0 \<le> c \<and> c < int (vocabulary_size words)"
  from assms have X: "X = concat (map (\<lambda>w. contexts_from (replicate n 0) (codes (stoi words) (w @ ''.''))) words)"
    and Y: "Y = concat (map (\<lambda>w. codes (stoi words) (w @ ''.'')) words)"
    by (simp_all add: build_examples_eq)
  have z: "\<forall>c\<in>set (replicate n 0). ?P c" by (simp add: vocabulary_size_def)
  show "\<forall>ctx\<in>set X. \<forall>c\<in>set ctx. ?P c"
  proof
    fix ctx assume "ctx \<in> set X"
    with X obtain w where w: "w \<in> set words"
      "ctx \<in> set (contexts_from (replicate n 0) (codes (stoi words) (w @ ''.'')))" by auto
    from contexts_from_elems[of "replicate n 0" ?P, OF z codes_range[OF w(1)]] w(2)
    show "\<forall>c\<in>set ctx. ?P c" by blast
  qed
  show "\<forall>t\<in>set Y. ?P t"
  proof
    fix t assume "t \<in> set Y"
    with Y obtain w where w: "w \<in> set words" "t \<in> set (codes (stoi words) (w @ ''.''))" by auto
    from codes_range[OF w(1)] w(2) show "?P t" by blast
  qed
qed

lemma build_examples_rows:
  assumes "build_examples n words = Inr (X, Y)" "0 < n"
  shows "\<forall>ctx\<in>set X. length ctx = n"
proof
  fix ctx assume "ctx \<in> set X"
  with assms(1) obtain w where
    "ctx \<in> set (contexts_from (replicate n 0) (codes (stoi words) (w @ ''.'')))"
    by (auto simp: build_examples_eq)
  moreover from assms(2) have "0 < length (replicate n (0::int))" by simp
  from contexts_from_length[OF this]
  have "\<forall>row\<in>set (contexts_from (replicate n 0) (codes (stoi words) (w @ ''.''))).
      length row = length (replicate n (0::int))" .
  ultimately show "length ctx = n" by simp
qed

lemma torch_tensor_rows:
  assumes "X \<noteq> []" "0 < n" "\<forall>ctx\<in>set X. length ctx = n"
    and "\<forall>ctx\<in>set X. \<forall>c\<in>set ctx. int64 c"
  shows "torch_tensor X = Inr (Tensor2 X)"
proof -
  from assms(1) obtain r rs where X: "X = r # rs" by (cases X) auto
  with assms(2,3) have "r \<noteq> []" by auto
  moreover from X assms(3) have "list_all (\<lambda>r'. length r' = length r) rs"
    by (simp add: list_all_iff)
  moreover from assms(4) have "list_all (list_all int64) X"
    by (simp add: list_all_iff)
  ultimately show ?thesis using X by (simp add: torch_tensor_def)
qed

lemma torch_tensor_cases:
  "torch_tensor X = Inr t \<Longrightarrow> t = Tensor2 X \<or> t = FloatTensor"
  by (cases X) (auto simp: torch_tensor_def split: if_splits)

lemma vocabulary_size_le: "vocabulary_size words \<le> 257"
proof -
  have "length (chars words) = card (set (chars words))"
    by (simp add: distinct_card chars_distinct)
  also have "\<dots> \<le> card (UNIV :: char set)"
    by (intro card_mono) simp_all
  finally show ?thesis by (simp add: vocabulary_size_def card_UNIV_char)
qed

text \<open>The forward pass on the whole dataset, as the notebook makes it after building the
  examples: it succeeds for a corpus that is not empty and a model of matching shapes
  whose table has a row for every code.\<close>

lemma dataset_forward:
  assumes "build_examples C words = Inr (X, Y)" "words \<noteq> []"
    and "MLPLM_init V D C m" "0 < C" "0 < D" "vocabulary_size words \<le> V"
  shows "torch_tensor X = Inr (Tensor2 X)"
    and "forward m (Tensor2 X) = Inr (map (spec_logits m) X)"
proof -
  from build_examples_lengths(1)[OF assms(1)] assms(2) have ne: "X \<noteq> []" by auto
  note rows = build_examples_rows[OF assms(1,4)]
  have "\<forall>ctx\<in>set X. \<forall>c\<in>set ctx. int64 c"
  proof (intro ballI)
    fix ctx c assume "ctx \<in> set X" "c \<in> set ctx"
    with build_examples_range(1)[OF assms(1)]
    have "0 \<le> c" "c < int (vocabulary_size words)" by auto
    with vocabulary_size_le[of words] show "int64 c" by (simp add: int64_def)
  qed
  with ne assms(4) rows show "torch_tensor X = Inr (Tensor2 X)" by (rule torch_tensor_rows)
  from build_examples_range(1)[OF assms(1)] assms(6)
  have "\<forall>ctx\<in>set X. \<forall>c\<in>set ctx. 0 \<le> c \<and> c < int V" by fastforce
  with rows have "\<forall>ctx\<in>set X. length ctx = C \<and> (\<forall>c\<in>set ctx. 0 \<le> c \<and> c < int V)" by simp
  from forward_batch_eq[OF assms(3-5) ne this]
  show "forward m (Tensor2 X) = Inr (map (spec_logits m) X)" .
qed

text \<open>
  Claim C10. Every entry of every context and every target the example builder produces
  lies in the range from 0 to \<open>V - 1\<close>, \<open>V\<close> the size of the vocabulary. So when a model whose
  embedding table has a row for each of the \<open>V\<close> codes is applied to the tensor of the
  contexts, every lookup in the table succeeds, the embedding layer returns its tensor,
  and \<open>forward\<close> does not raise \<open>IndexError\<close>.
\<close>

theorem codes_in_range:
  assumes "build_examples ctx_len words = Inr (X, Y)"
    and "vocabulary_size words \<le> length (embedding m)"
  shows "(\<forall>ctx\<in>set X. \<forall>c\<in>set ctx. 0 \<le> c \<and> c < int (vocabulary_size words))
     \<and> (\<forall>t\<in>set Y. 0 \<le> t \<and> t < int (vocabulary_size words))
     \<and> (\<forall>ctx\<in>set X. \<forall>c\<in>set ctx.
           embedding_lookup (embedding m) c = Inr (embedding m ! nat c))
     \<and> nn_embedding (embedding m) (Tensor2 X)
           = Inr (RTensor3 (map (map (\<lambda>c. embedding m ! nat c)) X))
     \<and> (\<forall>t. torch_tensor X = Inr t \<longrightarrow> forward m t \<noteq> Inl IndexError)"
proof -
  note r = build_examples_range[OF assms(1)]
  from r(1) assms(2)
  have v: "\<forall>ctx\<in>set X. \<forall>c\<in>set ctx. 0 \<le> c \<and> c < int (length (embedding m))" by fastforce
  then have l: "\<forall>ctx\<in>set X. \<forall>c\<in>set ctx.
           embedding_lookup (embedding m) c = Inr (embedding m ! nat c)"
    by (simp add: embedding_lookup_def)
  from v have e: "nn_embedding (embedding m) (Tensor2 X)
           = Inr (RTensor3 (map (map (\<lambda>c. embedding m ! nat c)) X))"
    by (rule embedding_batch)
  have f: "\<forall>t. torch_tensor X = Inr t \<longrightarrow> forward m t \<noteq> Inl IndexError"
  proof (intro allI impI notI)
    fix t assume t: "torch_tensor X = Inr t" and "forward m t = Inl IndexError"
    then have i: "nn_embedding (embedding m) t = Inl IndexError"
      by (intro forward_IndexError)
    from torch_tensor_cases[OF t] show False
    proof
      assume "t = Tensor2 X"
      with i e show False by simp
    next
      assume "t = FloatTensor"
      with i show False by simp
    qed
  qed
  from r l e f show ?thesis by (intro conjI)
qed

theorem codes_in_range_witness:
  "build_examples 3 [''ab'', ''ba''] =
     Inr ([[0, 0, 0], [0, 0, 1], [0, 1, 2], [0, 0, 0], [0, 0, 2], [0, 2, 1]], [1, 2, 0, 2, 1, 0])
   \<and> vocabulary_size [''ab'', ''ba''] \<le> length (embedding (example_model 27 2 3))
   \<and> nn_embedding (embedding (example_model 27 2 3))
        (Tensor2 [[0, 0, 0], [0, 0, 1], [0, 1, 2], [0, 0, 0], [0, 0, 2], [0, 2, 1]])
      = Inr (RTensor3 (map (map (\<lambda>c. embedding (example_model 27 2 3) ! nat c))
          [[0, 0, 0], [0, 0, 1], [0, 1, 2], [0, 0, 0], [0, 0, 2], [0, 2, 1]]))
   \<and> torch_tensor [[0, 0, 0], [0, 0, 1], [0, 1, 2], [0, 0, 0], [0, 0, 2], [0, 2, 1]]
      = Inr (Tensor2 [[0, 0, 0], [0, 0, 1], [0, 1, 2], [0, 0, 0], [0, 0, 2], [0, 2, 1]])
   \<and> forward (example_model 27 2 3)
        (Tensor2 [[0, 0, 0], [0, 0, 1], [0, 1, 2], [0, 0, 0], [0, 0, 2], [0, 2, 1]])
      \<noteq> Inl IndexError"
proof -
  have b: "build_examples 3 [''ab'', ''ba''] =
     Inr ([[0, 0, 0], [0, 0, 1], [0, 1, 2], [0, 0, 0], [0, 0, 2], [0, 2, 1]], [1, 2, 0, 2, 1, 0])"
    by code_simp
  have "vocabulary_size [''ab'', ''ba''] = 3" by code_simp
  then have v: "vocabulary_size [''ab'', ''ba''] \<le> length (embedding (example_model 27 2 3))"
    by (simp add: example_model_def)
  have t: "torch_tensor [[0, 0, 0], [0, 0, 1], [0, 1, 2], [0, 0, 0], [0, 0, 2], [0, 2, 1]]
      = Inr (Tensor2 [[0, 0, 0], [0, 0, 1], [0, 1, 2], [0, 0, 0], [0, 0, 2], [0, 2, 1]])"
    by (simp add: torch_tensor_def int64_def)
  note c = codes_in_range[OF b v]
  from c have e: "nn_embedding (embedding (example_model 27 2 3))
        (Tensor2 [[0, 0, 0], [0, 0, 1], [0, 1, 2], [0, 0, 0], [0, 0, 2], [0, 2, 1]])
      = Inr (RTensor3 (map (map (\<lambda>c. embedding (example_model 27 2 3) ! nat c))
          [[0, 0, 0], [0, 0, 1], [0, 1, 2], [0, 0, 0], [0, 0, 2], [0, 2, 1]]))"
    by blast
  from c t have f: "forward (example_model 27 2 3)
        (Tensor2 [[0, 0, 0], [0, 0, 1], [0, 1, 2], [0, 0, 0], [0, 0, 2], [0, 2, 1]])
      \<noteq> Inl IndexError"
    by blast
  from b v e t f show ?thesis by (intro conjI)
qed

section \<open>The sampling loop\<close>

lemma itos_boundary_iff:
  assumes "CHR ''.'' \<notin> set (concat words)"
  shows "itos words idx = Some (CHR ''.'') \<longleftrightarrow> idx = 0"
proof
  assume h: "itos words idx = Some (CHR ''.'')"
  show "idx = 0"
  proof (rule ccontr)
    assume n: "idx \<noteq> 0"
    with h have r: "1 \<le> idx" "idx \<le> int (length (chars words))"
      and c: "chars words ! nat (idx - 1) = CHR ''.''"
      by (auto simp: itos_eq split: if_splits)
    from r have "nat (idx - 1) < length (chars words)" by simp
    then have "chars words ! nat (idx - 1) \<in> set (chars words)" by (rule nth_mem)
    with c assms show False by (simp add: chars_set)
  qed
next
  assume "idx = 0"
  then show "itos words idx = Some (CHR ''.'')" by (simp add: itos_eq)
qed

lemma loop_body_eq:
  assumes "forward m (unsqueeze_0 ctx) = Inr logits" "sample logits g = (idx, g')"
  shows "loop_body d m sample (ctx, gen_name, g) =
     (case d idx of
        None \<Rightarrow> Raise KeyError
      | Some ch \<Rightarrow>
          if ch = CHR ''.'' then Break (gen_name @ [ch], g')
          else Continue (drop 1 ctx @ [idx], gen_name @ [ch], g'))"
  using assms by (simp add: loop_body_def subscript_def Let_def split: option.splits)

lemma loop_body_Break:
  "loop_body d m sample (ctx, gen_name, g) = Break (r, g') \<Longrightarrow> r = gen_name @ ''.''"
  by (auto simp: loop_body_def subscript_def Let_def split: sum.splits prod.splits option.splits if_splits)

lemma loop_body_Continue:
  "loop_body d m sample (ctx, gen_name, g) = Continue (ctx', gen_name', g') \<Longrightarrow>
   \<exists>ch. ch \<noteq> CHR ''.'' \<and> gen_name' = gen_name @ [ch]"
  by (auto simp: loop_body_def subscript_def Let_def split: sum.splits prod.splits option.splits if_splits)

lemma sampling_loop_result:
  assumes "sampling_loop d m sample s = Some y"
  shows "\<forall>ctx gen_name g r g'. s = (ctx, gen_name, g) \<longrightarrow> y = Inr (r, g') \<longrightarrow>
     (\<exists>t. r = gen_name @ t @ ''.'' \<and> CHR ''.'' \<notin> set t)"
proof (rule sampling_loop.raw_induct[OF _ assms,
      where P = "\<lambda>d m sample s y. \<forall>ctx gen_name g r g'. s = (ctx, gen_name, g) \<longrightarrow> y = Inr (r, g') \<longrightarrow>
     (\<exists>t. r = gen_name @ t @ ''.'' \<and> CHR ''.'' \<notin> set t)"])
  fix loop :: "(int \<rightharpoonup> char) \<Rightarrow> MLPLM \<Rightarrow> (matrix \<Rightarrow> 'a \<Rightarrow> int \<times> 'a)
      \<Rightarrow> int list \<times> string \<times> 'a \<Rightarrow> (error + string \<times> 'a) option"
    and d m sample s y
  assume IH: "\<And>d m sample s y. loop d m sample s = Some y \<Longrightarrow>
      \<forall>ctx gen_name g r g'. s = (ctx, gen_name, g) \<longrightarrow> y = Inr (r, g') \<longrightarrow>
        (\<exists>t. r = gen_name @ t @ ''.'' \<and> CHR ''.'' \<notin> set t)"
    and step: "(case loop_body d m sample s of
        Continue s' \<Rightarrow> loop d m sample s' | Break r \<Rightarrow> Some (Inr r)
      | Raise e \<Rightarrow> Some (Inl e)) = Some y"
  show "\<forall>ctx gen_name g r g'. s = (ctx, gen_name, g) \<longrightarrow> y = Inr (r, g') \<longrightarrow>
     (\<exists>t. r = gen_name @ t @ ''.'' \<and> CHR ''.'' \<notin> set t)"
  proof (intro allI impI)
    fix ctx gen_name g r g'
    assume s: "s = (ctx, gen_name, g)" and y: "y = Inr (r, g')"
    show "\<exists>t. r = gen_name @ t @ ''.'' \<and> CHR ''.'' \<notin> set t"
    proof (cases "loop_body d m sample s")
      case (Continue s')
      obtain ctx' gen_name' g1 where s': "s' = (ctx', gen_name', g1)" by (cases s') auto
      from Continue step have "loop d m sample s' = Some y" by simp
      from IH[OF this, rule_format, OF s' y]
      obtain t where t: "r = gen_name' @ t @ ''.''" "CHR ''.'' \<notin> set t"
        by (elim exE conjE)
      from Continue s s' have "loop_body d m sample (ctx, gen_name, g) = Continue (ctx', gen_name', g1)"
        by simp
      from loop_body_Continue[OF this] obtain ch where
        ch: "ch \<noteq> CHR ''.''" "gen_name' = gen_name @ [ch]" by (elim exE conjE)
      from t ch have "r = gen_name @ (ch # t) @ ''.''" by simp
      moreover from t ch have "CHR ''.'' \<notin> set (ch # t)" by simp
      ultimately show ?thesis by (intro exI[of _ "ch # t"] conjI)
    next
      case (Break b)
      with step y have "b = (r, g')" by simp
      with Break s have "loop_body d m sample (ctx, gen_name, g) = Break (r, g')" by simp
      then have "r = gen_name @ ''.''" by (rule loop_body_Break)
      then have "r = gen_name @ [] @ ''.''" by simp
      moreover have "CHR ''.'' \<notin> set []" by simp
      ultimately show ?thesis by (intro exI[of _ "[]"] conjI)
    next
      case (Raise e)
      with step y show ?thesis by simp
    qed
  qed
qed


lemma forward_context:
  assumes "MLPLM_init V D C m" "0 < C" "0 < D"
    and "length ctx = C" "\<forall>c\<in>set ctx. 0 \<le> c \<and> c < int V"
  shows "forward m (unsqueeze_0 ctx) = Inr [spec_logits m ctx]"
proof -
  from assms(4,5) have one: "\<forall>x\<in>set [ctx]. length x = C \<and> (\<forall>c\<in>set x. 0 \<le> c \<and> c < int V)"
    by simp
  have "[ctx] \<noteq> []" by simp
  from forward_batch_eq[OF assms(1-3) this one] show ?thesis
    by (simp add: unsqueeze_0_def)
qed

lemma slide_valid:
  assumes "0 < C" "length ctx = C" "\<forall>c\<in>set ctx. 0 \<le> c \<and> c < int V" "0 \<le> idx" "idx < int V"
  shows "length (drop 1 ctx @ [idx]) = C" and "\<forall>c\<in>set (drop 1 ctx @ [idx]). 0 \<le> c \<and> c < int V"
proof -
  from assms(1,2) show "length (drop 1 ctx @ [idx]) = C" by simp
  from assms(3,4,5) show "\<forall>c\<in>set (drop 1 ctx @ [idx]). 0 \<le> c \<and> c < int V"
    by (auto dest: in_set_dropD)
qed

lemma itos_letter:
  assumes "CHR ''.'' \<notin> set (concat words)" "1 \<le> idx" "idx < int (vocabulary_size words)"
  shows "itos words idx = Some (chars words ! nat (idx - 1))"
    and "chars words ! nat (idx - 1) \<noteq> CHR ''.''"
proof -
  from assms(2,3) show i: "itos words idx = Some (chars words ! nat (idx - 1))"
    by (simp add: itos_eq vocabulary_size_def)
  from assms(2) have "idx \<noteq> 0" by simp
  with itos_boundary_iff[OF assms(1), of idx] i
  show "chars words ! nat (idx - 1) \<noteq> CHR ''.''" by auto
qed

lemma itos_outside:
  "\<not> (0 \<le> idx \<and> idx < int (vocabulary_size words)) \<Longrightarrow> itos words idx = None"
  by (auto simp: itos_eq vocabulary_size_def)

lemma sampling_loop_step:
  assumes "CHR ''.'' \<notin> set (concat words)" "MLPLM_init V D C m" "0 < C" "0 < D"
    and "length ctx = C" "\<forall>c\<in>set ctx. 0 \<le> c \<and> c < int V"
    and "sample [spec_logits m ctx] g = (idx, g')"
  shows "sampling_loop (itos words) m sample (ctx, gen_name, g) =
       (if idx = 0 then Some (Inr (gen_name @ ''.'', g'))
        else if 1 \<le> idx \<and> idx < int (vocabulary_size words)
        then sampling_loop (itos words) m sample
               (drop 1 ctx @ [idx], gen_name @ [chars words ! nat (idx - 1)], g')
        else Some (Inl KeyError))"
proof -
  note f = forward_context[OF assms(2-6)]
  note b = loop_body_eq[where sample = sample and d = "itos words" and gen_name = gen_name,
      OF f assms(7)]
  show ?thesis
  proof (cases "idx = 0")
    case True
    then have "itos words idx = Some (CHR ''.'')" by (simp add: itos_eq)
    with b have "loop_body (itos words) m sample (ctx, gen_name, g) = Break (gen_name @ ''.'', g')"
      by simp
    with True show ?thesis by (subst sampling_loop.simps) simp
  next
    case False
    show ?thesis
    proof (cases "1 \<le> idx \<and> idx < int (vocabulary_size words)")
      case True
      then have r: "1 \<le> idx" "idx < int (vocabulary_size words)" by simp_all
      from itos_letter[OF assms(1) r] b
      have "loop_body (itos words) m sample (ctx, gen_name, g)
          = Continue (drop 1 ctx @ [idx], gen_name @ [chars words ! nat (idx - 1)], g')"
        by simp
      with False True show ?thesis by (subst sampling_loop.simps) simp
    next
      case True': False
      with False have "\<not> (0 \<le> idx \<and> idx < int (vocabulary_size words))" by auto
      then have "itos words idx = None" by (rule itos_outside)
      with b have "loop_body (itos words) m sample (ctx, gen_name, g) = Raise KeyError" by simp
      with False True' show ?thesis by (subst sampling_loop.simps) auto
    qed
  qed
qed

lemma sampling_loop_diverges:
  assumes dot: "CHR ''.'' \<notin> set (concat words)"
    and init: "MLPLM_init V D C m" and C: "0 < C" and D: "0 < D"
    and draws: "\<forall>logits g. 1 \<le> fst (sample logits g)
        \<and> fst (sample logits g) < int (vocabulary_size words)"
    and V: "vocabulary_size words \<le> V"
    and ctx: "length ctx = C" "\<forall>c\<in>set ctx. 0 \<le> c \<and> c < int V"
  shows "sampling_loop (itos words) m sample (ctx, gen_name, g) = None"
proof (rule ccontr)
  assume "sampling_loop (itos words) m sample (ctx, gen_name, g) \<noteq> None"
  then obtain y where y: "sampling_loop (itos words) m sample (ctx, gen_name, g) = Some y"
    by auto
  let ?P = "\<lambda>d' m' sample' (s :: int list \<times> string \<times> 'a) (y :: error + string \<times> 'a).
      d' = itos words \<longrightarrow> m' = m \<longrightarrow> sample' = sample \<longrightarrow>
      length (fst s) = C \<longrightarrow> (\<forall>c\<in>set (fst s). 0 \<le> c \<and> c < int V) \<longrightarrow> False"
  have "?P (itos words) m sample (ctx, gen_name, g) y"
  proof (rule sampling_loop.raw_induct[OF _ y, where P = ?P])
    fix loop :: "(int \<rightharpoonup> char) \<Rightarrow> MLPLM \<Rightarrow> (matrix \<Rightarrow> 'a \<Rightarrow> int \<times> 'a)
        \<Rightarrow> int list \<times> string \<times> 'a \<Rightarrow> (error + string \<times> 'a) option"
      and d' m' sample' s y
    assume IH: "\<And>d' m' sample' s y. loop d' m' sample' s = Some y \<Longrightarrow> ?P d' m' sample' s y"
      and step: "(case loop_body d' m' sample' s of
          Continue s' \<Rightarrow> loop d' m' sample' s' | Break r \<Rightarrow> Some (Inr r)
        | Raise e \<Rightarrow> Some (Inl e)) = Some y"
    show "?P d' m' sample' s y"
    proof (intro impI)
      assume eq: "d' = itos words" "m' = m" "sample' = sample"
        and valid: "length (fst s) = C" "\<forall>c\<in>set (fst s). 0 \<le> c \<and> c < int V"
      obtain c n g0 where s: "s = (c, n, g0)" by (cases s) auto
      obtain idx g' where dr: "sample [spec_logits m c] g0 = (idx, g')"
        by (cases "sample [spec_logits m c] g0") auto
      with draws[rule_format, of "[spec_logits m c]" g0]
      have r: "1 \<le> idx" "idx < int (vocabulary_size words)" by simp_all
      from valid s have vc: "length c = C" "\<forall>x\<in>set c. 0 \<le> x \<and> x < int V" by simp_all
      note f = forward_context[OF init C D vc]
      note b = loop_body_eq[where sample = sample and d = "itos words" and gen_name = n,
          OF f dr]
      from itos_letter[OF dot r] b
      have "loop_body (itos words) m sample (c, n, g0)
          = Continue (drop 1 c @ [idx], n @ [chars words ! nat (idx - 1)], g')"
        by simp
      with step eq s
      have l: "loop (itos words) m sample (drop 1 c @ [idx], n @ [chars words ! nat (idx - 1)], g')
          = Some y" by simp
      from r V have "0 \<le> idx" "idx < int V" by simp_all
      from slide_valid[OF C vc this]
      have "length (fst (drop 1 c @ [idx], n @ [chars words ! nat (idx - 1)], g')) = C"
        and "\<forall>x\<in>set (fst (drop 1 c @ [idx], n @ [chars words ! nat (idx - 1)], g')).
            0 \<le> x \<and> x < int V"
        by simp_all
      with IH[OF l] show False by blast
    qed
  qed
  with ctx show False by simp
qed

text \<open>
  Claim C1, as the code has it. With the vocabulary of a corpus free of the boundary
  symbol and a model of matching shapes, a pass of the loop on a context of valid codes
  ends the loop exactly when the code it draws is the boundary code 0: a code from 1 to
  \<open>V - 1\<close> appends its character, which is not the boundary symbol, and goes on, and a code
  outside the vocabulary raises \<open>KeyError\<close>. The boundary character is appended before the
  loop is left: the string returned ends with it and holds it nowhere else.
\<close>

theorem sampling_loop_boundary:
  assumes "CHR ''.'' \<notin> set (concat words)" "MLPLM_init V D C m" "0 < C" "0 < D"
    and "length ctx = C" "\<forall>c\<in>set ctx. 0 \<le> c \<and> c < int V"
    and "sample [spec_logits m ctx] g = (idx, g')"
  shows "sampling_loop (itos words) m sample (ctx, gen_name, g) =
       (if idx = 0 then Some (Inr (gen_name @ ''.'', g'))
        else if 1 \<le> idx \<and> idx < int (vocabulary_size words)
        then sampling_loop (itos words) m sample
               (drop 1 ctx @ [idx], gen_name @ [chars words ! nat (idx - 1)], g')
        else Some (Inl KeyError))
     \<and> (1 \<le> idx \<and> idx < int (vocabulary_size words)
          \<longrightarrow> chars words ! nat (idx - 1) \<noteq> CHR ''.'')
     \<and> (\<forall>r g''. sampling_loop (itos words) m sample (ctx, [], g) = Some (Inr (r, g''))
          \<longrightarrow> r \<noteq> [] \<and> last r = CHR ''.'' \<and> CHR ''.'' \<notin> set (butlast r))"
proof (intro conjI allI impI)
  show "sampling_loop (itos words) m sample (ctx, gen_name, g) =
       (if idx = 0 then Some (Inr (gen_name @ ''.'', g'))
        else if 1 \<le> idx \<and> idx < int (vocabulary_size words)
        then sampling_loop (itos words) m sample
               (drop 1 ctx @ [idx], gen_name @ [chars words ! nat (idx - 1)], g')
        else Some (Inl KeyError))"
    using assms by (rule sampling_loop_step)
next
  assume "1 \<le> idx \<and> idx < int (vocabulary_size words)"
  then have "1 \<le> idx" "idx < int (vocabulary_size words)" by simp_all
  with assms(1) show "chars words ! nat (idx - 1) \<noteq> CHR ''.''" by (rule itos_letter(2))
next
  fix r g''
  assume "sampling_loop (itos words) m sample (ctx, [], g) = Some (Inr (r, g''))"
  from sampling_loop_result[OF this, rule_format, OF refl refl]
  obtain t where t: "r = [] @ t @ ''.''" "CHR ''.'' \<notin> set t" by (elim exE conjE)
  then have r: "r = t @ ''.''" by simp
  from r show "r \<noteq> []" by simp
  from r show "last r = CHR ''.''" by simp
  from r t(2) show "CHR ''.'' \<notin> set (butlast r)" by (simp add: butlast_append)
qed

theorem sampling_loop_boundary_witness:
  "CHR ''.'' \<notin> set (concat [''ab'', ''ba''])
   \<and> MLPLM_init 3 2 3 (example_model 3 2 3)
   \<and> always 2 [spec_logits (example_model 3 2 3) [0, 0, 0]] () = (2, ())
   \<and> sampling_loop (itos [''ab'', ''ba'']) (example_model 3 2 3) (always 2) ([0, 0, 0], [], ())
      = sampling_loop (itos [''ab'', ''ba'']) (example_model 3 2 3) (always 2) ([0, 0, 2], ''b'', ())
   \<and> always 0 [spec_logits (example_model 3 2 3) [0, 0, 2]] () = (0, ())
   \<and> sampling_loop (itos [''ab'', ''ba'']) (example_model 3 2 3) (always 0) ([0, 0, 2], ''b'', ())
      = Some (Inr (''b.'', ()))"
proof -
  have d: "CHR ''.'' \<notin> set (concat [''ab'', ''ba''])" by simp
  have i: "MLPLM_init 3 2 3 (example_model 3 2 3)" by (rule example_model_init)
  have p: "(0::nat) < 3" "(0::nat) < 2" by simp_all
  have c0: "length [0, 0, 0 :: int] = 3" "\<forall>c\<in>set [0, 0, 0 :: int]. 0 \<le> c \<and> c < int 3" by simp_all
  have c1: "length [0, 0, 2 :: int] = 3" "\<forall>c\<in>set [0, 0, 2 :: int]. 0 \<le> c \<and> c < int 3" by simp_all
  have s2: "always 2 [spec_logits (example_model 3 2 3) [0, 0, 0]] () = (2, ())"
    by (simp add: always_def)
  have s0: "always 0 [spec_logits (example_model 3 2 3) [0, 0, 2]] () = (0, ())"
    by (simp add: always_def)
  have v: "vocabulary_size [''ab'', ''ba''] = 3" by code_simp
  have ch: "chars [''ab'', ''ba''] = ''ab''" by code_simp
  from sampling_loop_boundary[where sample = "always 2 :: matrix \<Rightarrow> unit \<Rightarrow> int \<times> unit"
      and gen_name = "[]", OF d i p c0 s2, THEN conjunct1] v ch
  have 1: "sampling_loop (itos [''ab'', ''ba'']) (example_model 3 2 3) (always 2) ([0, 0, 0], [], ())
      = sampling_loop (itos [''ab'', ''ba'']) (example_model 3 2 3) (always 2) ([0, 0, 2], ''b'', ())"
    by simp
  from sampling_loop_boundary[where sample = "always 0 :: matrix \<Rightarrow> unit \<Rightarrow> int \<times> unit"
      and gen_name = "''b''", OF d i p c1 s0, THEN conjunct1]
  have 2: "sampling_loop (itos [''ab'', ''ba'']) (example_model 3 2 3) (always 0) ([0, 0, 2], ''b'', ())
      = Some (Inr (''b.'', ()))"
    by simp
  from d i s2 1 s0 2 show ?thesis by (intro conjI)
qed

text \<open>When the first draw is the boundary code the string returned is the boundary
  character, not the empty string.\<close>

theorem sampling_loop_boundary_counterexample:
  "generate (itos [''ab'', ''ba'']) (example_model 3 2 3) (always 0) () = Some (Inr (''.'', ()))
   \<and> CHR ''.'' \<in> set ''.''"
proof -
  have d: "CHR ''.'' \<notin> set (concat [''ab'', ''ba''])" by simp
  have i: "MLPLM_init 3 2 3 (example_model 3 2 3)" by (rule example_model_init)
  have p: "(0::nat) < 3" "(0::nat) < 2" by simp_all
  have c0: "length [0, 0, 0 :: int] = 3" "\<forall>c\<in>set [0, 0, 0 :: int]. 0 \<le> c \<and> c < int 3" by simp_all
  have s0: "always 0 [spec_logits (example_model 3 2 3) [0, 0, 0]] () = (0, ())"
    by (simp add: always_def)
  from sampling_loop_step[where sample = "always 0 :: matrix \<Rightarrow> unit \<Rightarrow> int \<times> unit"
      and gen_name = "[]", OF d i p c0 s0] show ?thesis
    by (simp add: generate_def)
qed

text \<open>
  Claim C2, as the code has it. The loop has no bound on its length and no error for
  exceeding one: it is left only by drawing the boundary code or by a failed lookup. When
  every draw is a code of the vocabulary other than the boundary code, generating a name
  never terminates.
\<close>

theorem sampling_loop_no_cap:
  assumes "CHR ''.'' \<notin> set (concat words)" "MLPLM_init V D 3 m" "0 < D"
    and "\<forall>logits g. 1 \<le> fst (sample logits g)
        \<and> fst (sample logits g) < int (vocabulary_size words)"
    and "vocabulary_size words \<le> V"
  shows "generate (itos words) m sample g = None"
proof -
  have "(0::nat) < 3" by simp
  moreover have "length [0, 0, 0 :: int] = 3" by simp
  moreover from assms(5) have "\<forall>c\<in>set [0, 0, 0 :: int]. 0 \<le> c \<and> c < int V"
    by (simp add: vocabulary_size_def)
  ultimately show ?thesis
    unfolding generate_def
    using assms by (intro sampling_loop_diverges[where V = V and D = D and C = 3]) 
qed

theorem sampling_loop_no_cap_witness:
  "CHR ''.'' \<notin> set (concat [''emma'', ''olivia'', ''ava''])
   \<and> MLPLM_init 27 2 3 (example_model 27 2 3)
   \<and> vocabulary_size [''emma'', ''olivia'', ''ava''] \<le> 27
   \<and> generate (itos [''emma'', ''olivia'', ''ava'']) (example_model 27 2 3) (always 5) () = None"
proof -
  have d: "CHR ''.'' \<notin> set (concat [''emma'', ''olivia'', ''ava''])" by simp
  have i: "MLPLM_init 27 2 3 (example_model 27 2 3)" by (rule example_model_init)
  have v: "vocabulary_size [''emma'', ''olivia'', ''ava''] = 8" by code_simp
  then have le: "vocabulary_size [''emma'', ''olivia'', ''ava''] \<le> 27" by simp
  have dr: "\<forall>logits (g::unit). 1 \<le> fst (always 5 logits g)
        \<and> fst (always 5 logits g) < int (vocabulary_size [''emma'', ''olivia'', ''ava''])"
    by (simp add: always_def v)
  have "(0::nat) < 2" by simp
  from sampling_loop_no_cap[OF d i this dr le] d i le show ?thesis by (intro conjI)
qed

text \<open>A run that draws the code 1 for ever: no number of generated characters stops
  it and no error is signalled.\<close>

theorem sampling_loop_no_cap_counterexample:
  "generate (itos [''ab'', ''ba'']) (example_model 3 2 3) (always 1) () = None"
proof -
  have d: "CHR ''.'' \<notin> set (concat [''ab'', ''ba''])" by simp
  have i: "MLPLM_init 3 2 3 (example_model 3 2 3)" by (rule example_model_init)
  have v: "vocabulary_size [''ab'', ''ba''] = 3" by code_simp
  have dr: "\<forall>logits (g::unit). 1 \<le> fst (always 1 logits g)
        \<and> fst (always 1 logits g) < int (vocabulary_size [''ab'', ''ba''])"
    by (simp add: always_def v)
  have c0: "length [0, 0, 0 :: int] = 3" "\<forall>c\<in>set [0, 0, 0 :: int]. 0 \<le> c \<and> c < int 3" by simp_all
  have "(0::nat) < 3" "(0::nat) < 2" "vocabulary_size [''ab'', ''ba''] \<le> 3" by (simp_all add: v)
  from sampling_loop_diverges[OF d i this(1,2) dr this(3) c0] show ?thesis
    by (simp add: generate_def)
qed

section \<open>Training\<close>

lemma epoch_body_div_zero:
  "epochs div 10 = 0 \<Longrightarrow>
   epoch_body ops X Y epochs epoch s =
     (case forward (model s) X of Inl e \<Rightarrow> Inl e | Inr logits \<Rightarrow> Inl ZeroDivisionError)"
  by (simp add: epoch_body_def Let_def split: sum.splits prod.splits)

lemma epoch_body_ok:
  assumes "epochs div 10 \<noteq> 0" "forward (model s) X = Inr l"
  shows "\<exists>s'. epoch_body ops X Y epochs epoch s = Inr s'
      \<and> (model s', optimizer s') = update ops X Y (model s, optimizer s)
      \<and> train_loss s' = train_loss s @ [loss_fn ops l Y]
      \<and> updates s' = updates s @ [backward ops (model s) X Y]"
  using assms
  by (auto simp: epoch_body_def update_def Let_def split: prod.splits)

lemma epoch_loop_ok:
  assumes "epochs div 10 \<noteq> 0"
    and "\<forall>k<length es. \<exists>l. forward (fst (trained ops X Y k (model s, optimizer s))) X = Inr l"
  shows "\<exists>s'. epoch_loop ops X Y epochs es s = Inr s'
      \<and> (model s', optimizer s') = trained ops X Y (length es) (model s, optimizer s)
      \<and> length (train_loss s') = length (train_loss s) + length es
      \<and> length (updates s') = length (updates s) + length es
      \<and> take (length (train_loss s)) (train_loss s') = train_loss s
      \<and> take (length (updates s)) (updates s') = updates s
      \<and> (\<forall>k<length es.
            updates s' ! (length (updates s) + k)
              = backward ops (fst (trained ops X Y k (model s, optimizer s))) X Y
            \<and> (\<exists>l. forward (fst (trained ops X Y k (model s, optimizer s))) X = Inr l
                  \<and> train_loss s' ! (length (train_loss s) + k) = loss_fn ops l Y))"
  using assms(2)
proof (induction es arbitrary: s)
  case Nil
  then show ?case by simp
next
  case (Cons epoch es)
  from Cons.prems[rule_format, of 0] obtain l where l: "forward (model s) X = Inr l" by auto
  from epoch_body_ok[OF assms(1) l, of ops Y epoch] obtain s1 where
    b: "epoch_body ops X Y epochs epoch s = Inr s1"
    and mo: "(model s1, optimizer s1) = update ops X Y (model s, optimizer s)"
    and tl: "train_loss s1 = train_loss s @ [loss_fn ops l Y]"
    and up: "updates s1 = updates s @ [backward ops (model s) X Y]"
    by blast
  have tr: "trained ops X Y k (model s1, optimizer s1) = trained ops X Y (Suc k) (model s, optimizer s)" for k
    by (simp add: mo)
  have "\<forall>k<length es. \<exists>l. forward (fst (trained ops X Y k (model s1, optimizer s1))) X = Inr l"
  proof (intro allI impI)
    fix k assume "k < length es"
    then have "Suc k < length (epoch # es)" by simp
    from Cons.prems[rule_format, OF this] show "\<exists>l. forward (fst (trained ops X Y k (model s1, optimizer s1))) X = Inr l"
      by (simp only: tr)
  qed
  from Cons.IH[OF this] obtain s' where
    loop: "epoch_loop ops X Y epochs es s1 = Inr s'"
    and mo': "(model s', optimizer s') = trained ops X Y (length es) (model s1, optimizer s1)"
    and ltl: "length (train_loss s') = length (train_loss s1) + length es"
    and lup: "length (updates s') = length (updates s1) + length es"
    and ttl: "take (length (train_loss s1)) (train_loss s') = train_loss s1"
    and tup: "take (length (updates s1)) (updates s') = updates s1"
    and each: "\<forall>k<length es.
            updates s' ! (length (updates s1) + k)
              = backward ops (fst (trained ops X Y k (model s1, optimizer s1))) X Y
            \<and> (\<exists>l. forward (fst (trained ops X Y k (model s1, optimizer s1))) X = Inr l
                  \<and> train_loss s' ! (length (train_loss s1) + k) = loss_fn ops l Y)"
    by blast
  have 1: "epoch_loop ops X Y epochs (epoch # es) s = Inr s'"
    using b loop by simp
  have 2: "(model s', optimizer s') = trained ops X Y (length (epoch # es)) (model s, optimizer s)"
    using mo' by (simp add: tr del: trained.simps)
  have 3: "length (train_loss s') = length (train_loss s) + length (epoch # es)"
    using ltl tl by simp
  have 4: "length (updates s') = length (updates s) + length (epoch # es)"
    using lup up by simp
  have 5: "take (length (train_loss s)) (train_loss s') = train_loss s"
  proof -
    have "take (length (train_loss s)) (train_loss s')
        = take (length (train_loss s)) (take (length (train_loss s1)) (train_loss s'))"
      using tl by (simp add: min_def)
    also have "\<dots> = train_loss s" by (simp only: ttl) (simp add: tl)
    finally show ?thesis .
  qed
  have 6: "take (length (updates s)) (updates s') = updates s"
  proof -
    have "take (length (updates s)) (updates s')
        = take (length (updates s)) (take (length (updates s1)) (updates s'))"
      using up by (simp add: min_def)
    also have "\<dots> = updates s" by (simp only: tup) (simp add: up)
    finally show ?thesis .
  qed
  have first_tl: "train_loss s' ! length (train_loss s) = loss_fn ops l Y"
  proof -
    have "train_loss s' ! length (train_loss s)
        = take (length (train_loss s1)) (train_loss s') ! length (train_loss s)"
      using tl by simp
    also have "\<dots> = loss_fn ops l Y" by (simp only: ttl) (simp add: tl)
    finally show ?thesis .
  qed
  have first_up: "updates s' ! length (updates s) = backward ops (model s) X Y"
  proof -
    have "updates s' ! length (updates s)
        = take (length (updates s1)) (updates s') ! length (updates s)"
      using up by simp
    also have "\<dots> = backward ops (model s) X Y" by (simp only: tup) (simp add: up)
    finally show ?thesis .
  qed
  have 7: "\<forall>k<length (epoch # es).
            updates s' ! (length (updates s) + k)
              = backward ops (fst (trained ops X Y k (model s, optimizer s))) X Y
            \<and> (\<exists>l. forward (fst (trained ops X Y k (model s, optimizer s))) X = Inr l
                  \<and> train_loss s' ! (length (train_loss s) + k) = loss_fn ops l Y)"
  proof (intro allI impI)
    fix k assume k: "k < length (epoch # es)"
    show "updates s' ! (length (updates s) + k)
              = backward ops (fst (trained ops X Y k (model s, optimizer s))) X Y
            \<and> (\<exists>l. forward (fst (trained ops X Y k (model s, optimizer s))) X = Inr l
                  \<and> train_loss s' ! (length (train_loss s) + k) = loss_fn ops l Y)"
    proof (cases k)
      case 0
      with first_up first_tl l show ?thesis by simp
    next
      case (Suc j)
      with k have j: "j < length es" by simp
      have i1: "length (updates s) + Suc j = length (updates s1) + j" using up by simp
      have i2: "length (train_loss s) + Suc j = length (train_loss s1) + j" using tl by simp
      from each[rule_format, OF j] show ?thesis
        unfolding Suc i1 i2 tr .
    qed
  qed
  from 1 2 3 4 5 6 7 show ?case by blast
qed


text \<open>With ten epochs or more, and as long as the forward pass succeeds, \<open>fit\<close> returns a
  history of one loss per epoch, in order, each the loss of the whole example set at the
  parameters of its epoch; it makes one update per epoch, from the gradient at those
  parameters alone, whatever the gradient buffers held before.\<close>

lemma fit_history:
  assumes "10 \<le> epochs"
    and "\<forall>k<nat epochs. \<exists>l. forward (fst (trained ops X Y k (m, opt))) X = Inr l"
  shows "\<exists>s. fit ops m g0 opt X Y epochs = Inr s
      \<and> (model s, optimizer s) = trained ops X Y (nat epochs) (m, opt)
      \<and> length (train_loss s) = nat epochs
      \<and> length (updates s) = nat epochs
      \<and> (\<forall>k<nat epochs.
            updates s ! k = backward ops (fst (trained ops X Y k (m, opt))) X Y
            \<and> (\<exists>l. forward (fst (trained ops X Y k (m, opt))) X = Inr l
                  \<and> train_loss s ! k = loss_fn ops l Y))"
proof -
  let ?s0 = "\<lparr>model = m, grads = g0, optimizer = opt, train_loss = [], printed = [],
      updates = []\<rparr>"
  from assms(1) have d: "epochs div 10 \<noteq> 0" by simp
  from assms(1) have n: "length [0..epochs - 1] = nat epochs" by simp
  from assms(2) n
  have "\<forall>k<length [0..epochs - 1]. \<exists>l. forward (fst (trained ops X Y k (model ?s0, optimizer ?s0))) X = Inr l"
    by simp
  from epoch_loop_ok[OF d this] show ?thesis
    unfolding fit_def n by simp
qed

text \<open>
  Claim C4 promises a history of \<open>E\<close> losses for every positive number \<open>E\<close> of epochs. For
  \<open>E\<close> from 1 to 9 the code returns none: \<open>epochs // 10\<close> is 0, and the test
  \<open>epoch % (epochs // 10) == 0\<close> that decides whether to print raises \<open>ZeroDivisionError\<close>
  in the first epoch, after the first update has been made.
\<close>

theorem fit_few_epochs:
  assumes "1 \<le> epochs" "epochs < 10"
  shows "fit ops m g0 opt X Y epochs =
     (case forward m X of Inl e \<Rightarrow> Inl e | Inr logits \<Rightarrow> Inl ZeroDivisionError)"
proof -
  from assms have d: "epochs div 10 = 0" by simp
  from assms(1) have r: "[0..epochs - 1] = 0 # [1..epochs - 1]"
    by (simp add: upto_rec1)
  show ?thesis
    unfolding fit_def r
    by (simp add: epoch_body_div_zero[OF d] split: sum.splits)
qed

theorem fit_few_epochs_witness:
  "(1::int) \<le> 5 \<and> (5::int) < 10
   \<and> forward (example_model 3 2 3) (Tensor2 [[0, 0, 0], [0, 0, 1], [0, 1, 2]])
       = Inr (map (spec_logits (example_model 3 2 3)) [[0, 0, 0], [0, 0, 1], [0, 1, 2]])
   \<and> (\<forall>(ops :: (int, unit) torch_ops) g0 opt.
         fit ops (example_model 3 2 3) g0 opt (Tensor2 [[0, 0, 0], [0, 0, 1], [0, 1, 2]]) [1, 2, 0] 5
           = Inl ZeroDivisionError)"
proof -
  have i: "MLPLM_init 3 2 3 (example_model 3 2 3)" by (rule example_model_init)
  have x: "\<forall>ctx\<in>set [[0, 0, 0], [0, 0, 1], [0, 1, 2 :: int]].
      length ctx = 3 \<and> (\<forall>c\<in>set ctx. 0 \<le> c \<and> c < int 3)" by simp
  have "(0::nat) < 3" "(0::nat) < 2" "[[0, 0, 0], [0, 0, 1], [0, 1, 2 :: int]] \<noteq> []" by simp_all
  from forward_batch_eq[OF i this x]
  have f: "forward (example_model 3 2 3) (Tensor2 [[0, 0, 0], [0, 0, 1], [0, 1, 2]])
       = Inr (map (spec_logits (example_model 3 2 3)) [[0, 0, 0], [0, 0, 1], [0, 1, 2]])" .
  have a: "(1::int) \<le> 5" "(5::int) < 10" by simp_all
  have "fit ops (example_model 3 2 3) g0 opt (Tensor2 [[0, 0, 0], [0, 0, 1], [0, 1, 2]]) [1, 2, 0] 5
           = Inl ZeroDivisionError" for ops :: "(int, unit) torch_ops" and g0 opt
    using fit_few_epochs[OF a, of ops "example_model 3 2 3" g0 opt
        "Tensor2 [[0, 0, 0], [0, 0, 1], [0, 1, 2]]" "[1, 2, 0]"]
    by (simp only: f sum.case)
  with a f show ?thesis by blast
qed

end
